theory Spec2Isabelle
  imports Main "HOL-Library.Sublist"
begin

section \<open>Values, strings and files\<close>

text \<open>
  The program is one Python module, \<^verbatim>\<open>Browser/main.py\<close>. A Python \<^verbatim>\<open>str\<close> is
  modelled as a HOL \<^typ>\<open>string\<close>; a character stands for a code point in the range
  U+0000 .. U+00FF. The settings object is whatever \<^verbatim>\<open>json.load\<close> returns, so the
  values it may hold are those of JSON. Floating-point numbers are outside the model.
  A Python \<^verbatim>\<open>dict\<close> whose keys are strings is an association list in insertion
  order.
\<close>

datatype json =
    JNull
  | JBool bool
  | JInt int
  | JStr string
  | JList "json list"
  | JObj "(string \<times> json) list"

type_synonym dict = "(string \<times> json) list"

datatype error =
    FileNotFoundError
  | OSError
  | JSONDecodeError
  | AttributeError
  | Unmodelled

text \<open>\<^verbatim>\<open>d.get(k, default)\<close>\<close>

definition dict_get :: "dict \<Rightarrow> string \<Rightarrow> json \<Rightarrow> json" where
  "dict_get d k dflt = (case map_of d k of None \<Rightarrow> dflt | Some v \<Rightarrow> v)"

text \<open>\<^verbatim>\<open>d[k] = v\<close>: an existing key keeps its position, a new key goes last.\<close>

fun dict_set :: "dict \<Rightarrow> string \<Rightarrow> json \<Rightarrow> dict" where
  "dict_set [] k v = [(k, v)]"
| "dict_set ((k', v') # d) k v =
     (if k' = k then (k, v) # d else (k', v') # dict_set d k v)"

text \<open>Python's truth value of an object, as \<^verbatim>\<open>not x\<close> and \<^verbatim>\<open>if x\<close> test it.\<close>

fun truthy :: "json \<Rightarrow> bool" where
  "truthy JNull = False"
| "truthy (JBool b) = b"
| "truthy (JInt i) = (i \<noteq> 0)"
| "truthy (JStr s) = (s \<noteq> [])"
| "truthy (JList vs) = (vs \<noteq> [])"
| "truthy (JObj kvs) = (kvs \<noteq> [])"

text \<open>\<^verbatim>\<open>needle in hay\<close> on strings.\<close>

fun str_contains :: "string \<Rightarrow> string \<Rightarrow> bool" where
  "str_contains [] needle = (needle = [])"
| "str_contains (c # cs) needle = (prefix needle (c # cs) \<or> str_contains cs needle)"

text \<open>\<^verbatim>\<open>s.startswith(p)\<close>\<close>

definition startswith :: "string \<Rightarrow> string \<Rightarrow> bool" where
  "startswith s p = (take (length p) s = p)"

text \<open>
  \<^verbatim>\<open>s.replace(old, new)\<close>: the occurrences of \<^verbatim>\<open>old\<close> are found from the left
  and do not overlap; an empty \<^verbatim>\<open>old\<close> matches before every character and at the end.
\<close>

function replace :: "string \<Rightarrow> string \<Rightarrow> string \<Rightarrow> string" where
  "replace s old new =
     (if old = [] then new @ concat (map (\<lambda>c. c # new) s)
      else if s = [] then []
      else if prefix old s then new @ replace (drop (length old) s) old new
      else hd s # replace (tl s) old new)"
  by pat_completeness auto
termination
  by (relation "measure (\<lambda>(s, old, new). length s)") (auto simp: neq_Nil_conv)

declare replace.simps [simp del]

text \<open>
  \<^verbatim>\<open>s.strip()\<close> removes the characters for which \<^verbatim>\<open>str.isspace\<close> holds from both
  ends. Below U+0100 these are U+0009 .. U+000D, U+001C .. U+0020, U+0085 and U+00A0.
\<close>

definition isspace :: "char \<Rightarrow> bool" where
  "isspace c = (let n = (of_char c :: nat) in
     (9 \<le> n \<and> n \<le> 13) \<or> (28 \<le> n \<and> n \<le> 32) \<or> n = 133 \<or> n = 160)"

definition strip :: "string \<Rightarrow> string" where
  "strip s = rev (dropWhile isspace (rev (dropWhile isspace s)))"

text \<open>
  A text file opened for reading translates \<^verbatim>\<open>\r\n\<close> and a lone \<^verbatim>\<open>\r\<close> to
  \<^verbatim>\<open>\n\<close> (universal newlines), and iterating over it yields its lines, each with its
  terminating \<^verbatim>\<open>\n\<close> when it has one.
\<close>

fun translate_newlines :: "string \<Rightarrow> string" where
  "translate_newlines [] = []"
| "translate_newlines [c] = (if c = CHR 0x0D then [CHR 0x0A] else [c])"
| "translate_newlines (c # d # cs) =
     (if c = CHR 0x0D \<and> d = CHR 0x0A then CHR 0x0A # translate_newlines cs
      else if c = CHR 0x0D then CHR 0x0A # translate_newlines (d # cs)
      else c # translate_newlines (d # cs))"

fun lines_from :: "string \<Rightarrow> string \<Rightarrow> string list" where
  "lines_from cur [] = (if cur = [] then [] else [cur])"
| "lines_from cur (c # cs) =
     (if c = CHR 0x0A then (cur @ [c]) # lines_from [] cs else lines_from (cur @ [c]) cs)"

definition file_lines :: "string \<Rightarrow> string list" where
  "file_lines text = lines_from [] text"

text \<open>
  The file system holds the text of each existing file, by name, and says which names
  cannot be opened for writing.
\<close>

record filesystem =
  contents :: "string \<rightharpoonup> string"
  unwritable :: "string set"

definition read_text :: "filesystem \<Rightarrow> string \<Rightarrow> error + string" where
  "read_text fs name =
     (case contents fs name of
        None \<Rightarrow> Inl FileNotFoundError
      | Some text \<Rightarrow> Inr (translate_newlines text))"

definition write_text :: "filesystem \<Rightarrow> string \<Rightarrow> string \<Rightarrow> error + filesystem" where
  "write_text fs name text =
     (if name \<in> unwritable fs then Inl OSError
      else Inr (fs\<lparr>contents := (contents fs)(name \<mapsto> text)\<rparr>))"

section \<open>The JSON encoder and decoder of the Python library\<close>

text \<open>
  The program writes its settings with \<^verbatim>\<open>json.dump(obj, f, indent=4)\<close> and reads
  them with \<^verbatim>\<open>json.load(f)\<close>. Both are modelled after CPython's \<^verbatim>\<open>json\<close>
  package with its default options: the encoder escapes every character outside
  the printable ASCII range, the decoder is the strict recursive-descent scanner.
\<close>

subsection \<open>Encoding\<close>

definition hexdigit :: "nat \<Rightarrow> char" where
  "hexdigit n = ''0123456789abcdef'' ! n"

definition escape_char :: "char \<Rightarrow> string" where
  "escape_char c =
     (if c = CHR 0x5C then [CHR 0x5C, CHR 0x5C]
      else if c = CHR 0x22 then [CHR 0x5C, CHR 0x22]
      else if c = CHR 0x08 then [CHR 0x5C, CHR ''b'']
      else if c = CHR 0x0C then [CHR 0x5C, CHR ''f'']
      else if c = CHR 0x0A then [CHR 0x5C, CHR ''n'']
      else if c = CHR 0x0D then [CHR 0x5C, CHR ''r'']
      else if c = CHR 0x09 then [CHR 0x5C, CHR ''t'']
      else if (of_char c :: nat) < 32 \<or> 126 < (of_char c :: nat)
        then [CHR 0x5C, CHR ''u'', CHR ''0'', CHR ''0'',
              hexdigit (of_char c div 16), hexdigit (of_char c mod 16)]
      else [c])"

definition encode_basestring_ascii :: "string \<Rightarrow> string" where
  "encode_basestring_ascii s = CHR 0x22 # concat (map escape_char s) @ [CHR 0x22]"

fun digits :: "nat \<Rightarrow> string" where
  "digits n = (if n < 10 then [char_of (48 + n)] else digits (n div 10) @ [char_of (48 + n mod 10)])"

declare digits.simps [simp del]

definition int_repr :: "int \<Rightarrow> string" where
  "int_repr i = (if i < 0 then CHR ''-'' # digits (nat (- i)) else digits (nat i))"

definition newline_indent :: "nat \<Rightarrow> string" where
  "newline_indent level = CHR 0x0A # replicate (4 * level) CHR '' ''"

fun encode :: "nat \<Rightarrow> json \<Rightarrow> string"
and encode_list :: "nat \<Rightarrow> json list \<Rightarrow> string"
and encode_dict :: "nat \<Rightarrow> (string \<times> json) list \<Rightarrow> string" where
  "encode level JNull = ''null''"
| "encode level (JBool b) = (if b then ''true'' else ''false'')"
| "encode level (JInt i) = int_repr i"
| "encode level (JStr s) = encode_basestring_ascii s"
| "encode level (JList vs) =
     (if vs = [] then ''[]''
      else ''['' @ newline_indent (Suc level) @ encode_list (Suc level) vs
           @ newline_indent level @ '']'')"
| "encode level (JObj kvs) =
     (if kvs = [] then ''{}''
      else ''{'' @ newline_indent (Suc level) @ encode_dict (Suc level) kvs
           @ newline_indent level @ ''}'')"
| "encode_list level [] = []"
| "encode_list level [v] = encode level v"
| "encode_list level (v # w # vs) =
     encode level v @ '','' @ newline_indent level @ encode_list level (w # vs)"
| "encode_dict level [] = []"
| "encode_dict level [(k, v)] = encode_basestring_ascii k @ '': '' @ encode level v"
| "encode_dict level ((k, v) # kv # kvs) =
     encode_basestring_ascii k @ '': '' @ encode level v @ '','' @ newline_indent level
     @ encode_dict level (kv # kvs)"


subsection \<open>Decoding\<close>

text \<open>
  A scanner takes the text that is left and returns the value it read together with
  the text after it. A number with a fraction or an exponent, the constants
  \<^verbatim>\<open>NaN\<close> and \<^verbatim>\<open>Infinity\<close>, and an escape for a code point above U+00FF are
  reported as \<^const>\<open>Unmodelled\<close>; every other failure is the library's
  \<^verbatim>\<open>JSONDecodeError\<close>.
\<close>

definition is_ws :: "char \<Rightarrow> bool" where
  "is_ws c = (c = CHR '' '' \<or> c = CHR 0x09 \<or> c = CHR 0x0A \<or> c = CHR 0x0D)"

definition skip_ws :: "string \<Rightarrow> string" where
  "skip_ws s = dropWhile is_ws s"

definition is_digit :: "char \<Rightarrow> bool" where
  "is_digit c = (48 \<le> (of_char c :: nat) \<and> (of_char c :: nat) \<le> 57)"

definition hexval :: "char \<Rightarrow> nat option" where
  "hexval c = (let n = (of_char c :: nat) in
     if 48 \<le> n \<and> n \<le> 57 then Some (n - 48)
     else if 97 \<le> n \<and> n \<le> 102 then Some (n - 87)
     else if 65 \<le> n \<and> n \<le> 70 then Some (n - 55)
     else None)"

definition decode_uXXXX :: "char \<Rightarrow> char \<Rightarrow> char \<Rightarrow> char \<Rightarrow> nat option" where
  "decode_uXXXX a b c d =
     (case (hexval a, hexval b, hexval c, hexval d) of
        (Some w, Some x, Some y, Some z) \<Rightarrow> Some (((w * 16 + x) * 16 + y) * 16 + z)
      | _ \<Rightarrow> None)"

definition backslash :: "char \<Rightarrow> char option" where
  "backslash e =
     (if e = CHR 0x22 then Some (CHR 0x22)
      else if e = CHR 0x5C then Some (CHR 0x5C)
      else if e = CHR ''/'' then Some (CHR ''/'')
      else if e = CHR ''b'' then Some (CHR 0x08)
      else if e = CHR ''f'' then Some (CHR 0x0C)
      else if e = CHR ''n'' then Some (CHR 0x0A)
      else if e = CHR ''r'' then Some (CHR 0x0D)
      else if e = CHR ''t'' then Some (CHR 0x09)
      else None)"

definition push_char :: "char \<Rightarrow> error + (string \<times> string) \<Rightarrow> error + (string \<times> string)" where
  "push_char c r = (case r of Inl e \<Rightarrow> Inl e | Inr (s, rest) \<Rightarrow> Inr (c # s, rest))"

fun scanstring :: "string \<Rightarrow> error + (string \<times> string)" where
  "scanstring [] = Inl JSONDecodeError"
| "scanstring (c # cs) =
     (if c = CHR 0x22 then Inr ([], cs)
      else if c = CHR 0x5C then
        (case cs of
           [] \<Rightarrow> Inl JSONDecodeError
         | e # r \<Rightarrow>
             if e = CHR ''u'' then
               (case r of
                  h1 # h2 # h3 # h4 # r' \<Rightarrow>
                    (case decode_uXXXX h1 h2 h3 h4 of
                       None \<Rightarrow> Inl JSONDecodeError
                     | Some n \<Rightarrow>
                         if n < 256 then push_char (char_of n) (scanstring r')
                         else Inl Unmodelled)
                | _ \<Rightarrow> Inl JSONDecodeError)
             else
               (case backslash e of
                  None \<Rightarrow> Inl JSONDecodeError
                | Some ch \<Rightarrow> push_char ch (scanstring r)))
      else if (of_char c :: nat) < 32 then Inl JSONDecodeError
      else push_char c (scanstring cs))"


definition nat_of_digits :: "string \<Rightarrow> nat" where
  "nat_of_digits ds = foldl (\<lambda>a c. 10 * a + (of_char c - 48)) 0 ds"

definition has_exponent :: "string \<Rightarrow> bool" where
  "has_exponent s =
     (case s of
        e # d # r \<Rightarrow>
          (e = CHR ''e'' \<or> e = CHR ''E'') \<and>
          (is_digit d \<or>
           ((d = CHR ''+'' \<or> d = CHR ''-'') \<and> (case r of d' # _ \<Rightarrow> is_digit d' | [] \<Rightarrow> False)))
      | _ \<Rightarrow> False)"

definition has_fraction :: "string \<Rightarrow> bool" where
  "has_fraction s = (case s of p # d # _ \<Rightarrow> p = CHR ''.'' \<and> is_digit d | _ \<Rightarrow> False)"

definition number_result :: "bool \<Rightarrow> nat \<Rightarrow> string \<Rightarrow> error + (json \<times> string)" where
  "number_result neg n rest =
     (if has_fraction rest \<or> has_exponent rest then Inl Unmodelled
      else Inr (JInt (if neg then - int n else int n), rest))"

definition scan_number :: "string \<Rightarrow> error + (json \<times> string)" where
  "scan_number s =
     (let neg = (s \<noteq> [] \<and> hd s = CHR ''-'');
          r = (if neg then tl s else s) in
      if r \<noteq> [] \<and> hd r = CHR ''0'' then number_result neg 0 (tl r)
      else if r \<noteq> [] \<and> is_digit (hd r)
        then number_result neg (nat_of_digits (takeWhile is_digit r)) (dropWhile is_digit r)
      else if prefix ''NaN'' s \<or> prefix ''Infinity'' s \<or> prefix ''-Infinity'' s
        then Inl Unmodelled
      else Inl JSONDecodeError)"

definition dict_of_pairs :: "(string \<times> json) list \<Rightarrow> dict" where
  "dict_of_pairs pairs = foldl (\<lambda>d (k, v). dict_set d k v) [] pairs"

function scan_once :: "string \<Rightarrow> error + (json \<times> string)"
and JSONObject :: "string \<Rightarrow> error + ((string \<times> json) list \<times> string)"
and JSONArray :: "string \<Rightarrow> error + (json list \<times> string)" where
  "scan_once s =
     (case s of
        [] \<Rightarrow> Inl JSONDecodeError
      | c # r \<Rightarrow>
          if c = CHR 0x22 then
            (case scanstring r of
               Inl e \<Rightarrow> Inl e
             | Inr (str, rest) \<Rightarrow> Inr (JStr str, rest))
          else if c = CHR ''{'' then
            (case skip_ws r of
               [] \<Rightarrow> Inl JSONDecodeError
             | c1 # r1 \<Rightarrow>
                 if c1 = CHR ''}'' then Inr (JObj [], r1)
                 else if c1 = CHR 0x22 then
                   (case JSONObject r1 of
                      Inl e \<Rightarrow> Inl e
                    | Inr (pairs, rest) \<Rightarrow> Inr (JObj (dict_of_pairs pairs), rest))
                 else Inl JSONDecodeError)
          else if c = CHR ''['' then
            (case skip_ws r of
               [] \<Rightarrow> Inl JSONDecodeError
             | c1 # r1 \<Rightarrow>
                 if c1 = CHR '']'' then Inr (JList [], r1)
                 else
                   (case JSONArray (c1 # r1) of
                      Inl e \<Rightarrow> Inl e
                    | Inr (vs, rest) \<Rightarrow> Inr (JList vs, rest)))
          else if prefix ''null'' s then Inr (JNull, drop 4 s)
          else if prefix ''true'' s then Inr (JBool True, drop 4 s)
          else if prefix ''false'' s then Inr (JBool False, drop 5 s)
          else scan_number s)"
| "JSONObject s =
     (case scanstring s of
        Inl e \<Rightarrow> Inl e
      | Inr (key, r) \<Rightarrow>
          (case skip_ws r of
             [] \<Rightarrow> Inl JSONDecodeError
           | c # r1 \<Rightarrow>
               if c \<noteq> CHR '':'' then Inl JSONDecodeError
               else
                 (case scan_once (skip_ws r1) of
                    Inl e \<Rightarrow> Inl e
                  | Inr (v, r2) \<Rightarrow>
                      (case skip_ws r2 of
                         [] \<Rightarrow> Inl JSONDecodeError
                       | c2 # r3 \<Rightarrow>
                           if c2 = CHR ''}'' then Inr ([(key, v)], r3)
                           else if c2 = CHR '','' then
                             (case skip_ws r3 of
                                [] \<Rightarrow> Inl JSONDecodeError
                              | c3 # r4 \<Rightarrow>
                                  if c3 = CHR 0x22 then
                                    (case JSONObject r4 of
                                       Inl e \<Rightarrow> Inl e
                                     | Inr (pairs, rest) \<Rightarrow> Inr ((key, v) # pairs, rest))
                                  else Inl JSONDecodeError)
                           else Inl JSONDecodeError))))"
| "JSONArray s =
     (case scan_once s of
        Inl e \<Rightarrow> Inl e
      | Inr (v, r) \<Rightarrow>
          (case skip_ws r of
             [] \<Rightarrow> Inl JSONDecodeError
           | c # r1 \<Rightarrow>
               if c = CHR '']'' then Inr ([v], r1)
               else if c = CHR '','' then
                 (case JSONArray (skip_ws r1) of
                    Inl e \<Rightarrow> Inl e
                  | Inr (vs, rest) \<Rightarrow> Inr (v # vs, rest))
               else Inl JSONDecodeError))"
  by pat_completeness auto


subsection \<open>The decoder consumes its input and terminates\<close>

lemma length_skip_ws: "length (skip_ws s) \<le> length s"
  by (simp add: skip_ws_def length_dropWhile_le)

lemma skip_ws_Cons_length: "skip_ws s = c # r \<Longrightarrow> length r < length s"
  using length_skip_ws [of s] by simp

lemma scanstring_length: "scanstring s = Inr (k, r) \<Longrightarrow> length r < length s"
proof (induction s arbitrary: k rule: scanstring.induct)
  case 1
  then show ?case by simp
next
  case (2 c cs)
  then show ?case
    by (fastforce simp: push_char_def split: if_splits list.splits option.splits sum.splits)
qed


lemma scan_number_length:
  assumes a: "scan_number s = Inr (v, r)"
  shows "length r < length s"
proof -
  have d: "length (dropWhile is_digit xs) < length xs" if "xs \<noteq> []" "is_digit (hd xs)" for xs
    using that by (cases xs) (auto simp: le_imp_less_Suc length_dropWhile_le)
  have t: "length (tl xs) < length xs" if "xs \<noteq> []" for xs :: string
    using that by (cases xs) auto
  have t2: "length (tl xs) \<le> length xs" for xs :: string
    by (cases xs) auto
  show ?thesis
    using a d [of s] d [of "tl s"] t [of s] t [of "tl s"] t2 [of s]
    by (auto simp: scan_number_def Let_def number_result_def split: if_splits)
qed

lemma consumes_dom:
  "scan_once_JSONObject_JSONArray_dom (Inl s) \<Longrightarrow>
     (\<forall>v r. scan_once s = Inr (v, r) \<longrightarrow> length r < length s)"
  "scan_once_JSONObject_JSONArray_dom (Inr (Inl s1)) \<Longrightarrow>
     (\<forall>ps r. JSONObject s1 = Inr (ps, r) \<longrightarrow> length r < length s1)"
  "scan_once_JSONObject_JSONArray_dom (Inr (Inr s2)) \<Longrightarrow>
     (\<forall>vs r. JSONArray s2 = Inr (vs, r) \<longrightarrow> length r < length s2)"
proof (induct rule: scan_once_JSONObject_JSONArray.pinduct)
  case (1 s)
  show ?case
  proof (intro allI impI)
    fix v r
    assume a: "scan_once s = Inr (v, r)"
    show "length r < length s"
    proof (cases s)
      case Nil
      with a 1(1) show ?thesis by (simp add: scan_once.psimps)
    next
      case (Cons c cs)
      note s = Cons
      consider (str) "c = CHR 0x22"
        | (obj) "c \<noteq> CHR 0x22" "c = CHR ''{''"
        | (arr) "c \<noteq> CHR 0x22" "c \<noteq> CHR ''{''" "c = CHR ''[''"
        | (atom) "c \<noteq> CHR 0x22" "c \<noteq> CHR ''{''" "c \<noteq> CHR ''[''"
        by blast
      then show ?thesis
      proof cases
        case str
        with a 1(1) s show ?thesis
          by (auto simp: scan_once.psimps split: sum.splits dest: scanstring_length)
      next
        case obj
        show ?thesis
        proof (cases "skip_ws cs")
          case Nil
          with a 1(1) s obj show ?thesis by (simp add: scan_once.psimps)
        next
          case (Cons c1 r1)
          have l: "length r1 < length cs" using Cons by (rule skip_ws_Cons_length)
          show ?thesis
          proof (cases "c1 = CHR ''}''")
            case True
            with a 1(1) s obj Cons l show ?thesis by (auto simp: scan_once.psimps)
          next
            case False
            show ?thesis
            proof (cases "c1 = CHR 0x22")
              case True
              have ih: "\<forall>ps r. JSONObject r1 = Inr (ps, r) \<longrightarrow> length r < length r1"
                using 1(2) [OF s obj(1) obj(2) Cons False True] .
              from a 1(1) s obj Cons False True l ih show ?thesis
                by (auto simp: scan_once.psimps split: sum.splits)
            next
              case f2: False
              with a 1(1) s obj Cons False show ?thesis by (simp add: scan_once.psimps)
            qed
          qed
        qed
      next
        case arr
        show ?thesis
        proof (cases "skip_ws cs")
          case Nil
          with a 1(1) s arr show ?thesis by (simp add: scan_once.psimps)
        next
          case (Cons c1 r1)
          have l: "length r1 < length cs" using Cons by (rule skip_ws_Cons_length)
          show ?thesis
          proof (cases "c1 = CHR '']''")
            case True
            with a 1(1) s arr Cons l show ?thesis by (auto simp: scan_once.psimps)
          next
            case False
            have ih: "\<forall>vs r. JSONArray (c1 # r1) = Inr (vs, r) \<longrightarrow> length r < length (c1 # r1)"
              using 1(3) [OF s arr(1) arr(2) arr(3) Cons False] .
            from a 1(1) s arr Cons False l ih show ?thesis
              by (auto simp: scan_once.psimps split: sum.splits)
          qed
        qed
      next
        case atom
        have eq: "scan_once s =
            (if prefix ''null'' s then Inr (JNull, drop 4 s)
             else if prefix ''true'' s then Inr (JBool True, drop 4 s)
             else if prefix ''false'' s then Inr (JBool False, drop 5 s)
             else scan_number s)"
          unfolding scan_once.psimps [OF 1(1)] using atom
          by (simp only: s list.case if_False)
        have dr: "length (drop n s) < length s" if "0 < n" for n
          using s that by simp
        show ?thesis
        proof (cases "prefix ''null'' s \<or> prefix ''true'' s \<or> prefix ''false'' s")
          case True
          then have "r = drop 4 s \<or> r = drop 5 s"
            using a unfolding eq by (auto simp only: if_True if_False sum.inject prod.inject split: if_splits)
          then show ?thesis using dr by auto
        next
          case False
          then have "scan_number s = Inr (v, r)"
            using a unfolding eq by (simp only: de_Morgan_disj if_False split: if_splits)
          then show ?thesis by (rule scan_number_length)
        qed
      qed
    qed
  qed
next
  case (2 s)
  show ?case
  proof (intro allI impI)
    fix ps r
    assume a: "JSONObject s = Inr (ps, r)"
    from a 2(1) obtain key r0 where k: "scanstring s = Inr (key, r0)"
      by (auto simp: JSONObject.psimps split: sum.splits)
    have l0: "length r0 < length s" using k by (rule scanstring_length)
    from a 2(1) k obtain c r1 where w: "skip_ws r0 = c # r1"
      by (cases "skip_ws r0") (auto simp: JSONObject.psimps)
    have l1: "length r1 < length r0" using w by (rule skip_ws_Cons_length)
    from a 2(1) k w have c: "\<not> c \<noteq> CHR '':''"
      by (auto simp: JSONObject.psimps split: if_splits)
    from a 2(1) k w c obtain v r2 where v: "scan_once (skip_ws r1) = Inr (v, r2)"
      by (auto simp: JSONObject.psimps split: sum.splits)
    have "length r2 < length (skip_ws r1)"
      using 2(2) [OF k refl w c] v by blast
    then have l2: "length r2 < length r1" using length_skip_ws [of r1] by simp
    from a 2(1) k w c v obtain c2 r3 where w2: "skip_ws r2 = c2 # r3"
      by (cases "skip_ws r2") (auto simp: JSONObject.psimps)
    have l3: "length r3 < length r2" using w2 by (rule skip_ws_Cons_length)
    show "length r < length s"
    proof (cases "c2 = CHR ''}''")
      case True
      with a 2(1) k w c v w2 l0 l1 l2 l3 show ?thesis
        by (auto simp: JSONObject.psimps)
    next
      case False
      from a 2(1) k w c v w2 False have comma: "c2 = CHR '',''"
        by (auto simp: JSONObject.psimps split: if_splits)
      from a 2(1) k w c v w2 False comma obtain c3 r4 where w3: "skip_ws r3 = c3 # r4"
        by (cases "skip_ws r3") (auto simp: JSONObject.psimps)
      have l4: "length r4 < length r3" using w3 by (rule skip_ws_Cons_length)
      from a 2(1) k w c v w2 False comma w3 have q: "c3 = CHR 0x22"
        by (auto simp: JSONObject.psimps split: if_splits)
      have ih: "\<forall>ps r. JSONObject r4 = Inr (ps, r) \<longrightarrow> length r < length r4"
        using 2(3) [OF k refl w c v refl w2 False comma w3 q] .
      from a 2(1) k w c v w2 False comma w3 q ih l0 l1 l2 l3 l4 show ?thesis
        by (auto simp: JSONObject.psimps split: sum.splits)
    qed
  qed
next
  case (3 s)
  show ?case
  proof (intro allI impI)
    fix vs r
    assume a: "JSONArray s = Inr (vs, r)"
    from a 3(1) obtain v r0 where v: "scan_once s = Inr (v, r0)"
      by (auto simp: JSONArray.psimps split: sum.splits)
    have l0: "length r0 < length s" using 3(2) v by blast
    from a 3(1) v obtain c r1 where w: "skip_ws r0 = c # r1"
      by (cases "skip_ws r0") (auto simp: JSONArray.psimps)
    have l1: "length r1 < length r0" using w by (rule skip_ws_Cons_length)
    show "length r < length s"
    proof (cases "c = CHR '']''")
      case True
      with a 3(1) v w l0 l1 show ?thesis by (auto simp: JSONArray.psimps)
    next
      case False
      from a 3(1) v w False have comma: "c = CHR '',''"
        by (auto simp: JSONArray.psimps split: if_splits)
      have ih: "\<forall>vs r. JSONArray (skip_ws r1) = Inr (vs, r) \<longrightarrow> length r < length (skip_ws r1)"
        using 3(3) [OF v refl w False comma] .
      from a 3(1) v w False comma ih l0 l1 length_skip_ws [of r1] show ?thesis
        by (fastforce simp: JSONArray.psimps split: sum.splits)
    qed
  qed
qed


termination scan_once
proof (relation "inv_image (less_than <*lex*> less_than)
         (\<lambda>x. case x of
                 Inl s \<Rightarrow> (length s, 0::nat)
               | Inr (Inl s) \<Rightarrow> (length s, 0)
               | Inr (Inr s) \<Rightarrow> (length s, 1))", goal_cases)
  case 1
  show ?case by (intro wf_inv_image wf_lex_prod wf_less_than)
next
  case (2 s c r c1 r1)
  have "length r1 < length r" using 2(4) by (rule skip_ws_Cons_length)
  then show ?case using 2(1) by simp
next
  case (3 s c r c1 r1)
  have "length (c1 # r1) \<le> length r" using length_skip_ws [of r] 3(5) by simp
  then show ?case using 3(1) by simp
next
  case (4 s kr key r c r1)
  have "length r < length s" using 4(1,2) scanstring_length [of s key r] by simp
  moreover have "length r1 < length r" using 4(3) by (rule skip_ws_Cons_length)
  ultimately show ?case using length_skip_ws [of r1] by simp
next
  case (5 s kr key r c r1 vr v r2 c2 r3 c3 r4)
  have "length r < length s" using 5(1,2) scanstring_length [of s key r] by simp
  moreover have "length r1 < length r" using 5(3) by (rule skip_ws_Cons_length)
  moreover have "length r2 < length (skip_ws r1)"
    using consumes_dom(1) [OF 5(12)] 5(5,6) by auto
  moreover have "length r3 < length r2" using 5(7) by (rule skip_ws_Cons_length)
  moreover have "length r4 < length r3" using 5(10) by (rule skip_ws_Cons_length)
  ultimately show ?case using length_skip_ws [of r1] by simp
next
  case (6 s)
  show ?case by simp
next
  case (7 s vr v r c r1)
  have "length r < length s"
    using consumes_dom(1) [OF 7(6)] 7(1,2) by auto
  moreover have "length r1 < length r" using 7(3) by (rule skip_ws_Cons_length)
  ultimately show ?case using length_skip_ws [of r1] by simp
qed

declare scan_once.simps [simp del] JSONObject.simps [simp del] JSONArray.simps [simp del]

definition json_loads :: "string \<Rightarrow> error + json" where
  "json_loads s =
     (case scan_once (skip_ws s) of
        Inl e \<Rightarrow> Inl e
      | Inr (v, rest) \<Rightarrow> if skip_ws rest = [] then Inr v else Inl JSONDecodeError)"

definition json_dumps :: "json \<Rightarrow> string" where
  "json_dumps v = encode 0 v"

text \<open>
  A Python \<^verbatim>\<open>dict\<close> holds no key twice, and since Python 3.11 the library
  refuses to convert an integer of more than 4300 decimal digits to or from text, a
  limit the encoder and decoder above leave out. \<open>wf_json\<close> says of a value that
  every object inside it has distinct keys and every integer inside it is within that
  limit: these are the values that stand for Python objects the program can write.
\<close>

definition int_max_str_digits :: nat where
  "int_max_str_digits = 4300"

fun wf_json :: "json \<Rightarrow> bool" where
  "wf_json (JInt i) = (\<bar>i\<bar> < 10 ^ int_max_str_digits)"
| "wf_json (JList vs) = list_all wf_json vs"
| "wf_json (JObj kvs) = (distinct (map fst kvs) \<and> list_all (\<lambda>kv. wf_json (snd kv)) kvs)"
| "wf_json v = True"

section \<open>The browser\<close>

text \<open>
  The state of the running process. \<^verbatim>\<open>Browser.settings\<close>, \<^verbatim>\<open>AdBlocker.settings\<close> and
  \<^verbatim>\<open>SettingsDialog.settings\<close> are references to one and the same \<^verbatim>\<open>dict\<close> object,
  so the state holds it once, in \<open>settings\<close>. \<open>page\<close> is the string last handed to
  \<^verbatim>\<open>self.browser.setUrl(QUrl(...))\<close>, \<open>url_bar\<close> the text of the address bar, and
  \<open>dark_style\<close> says whether the dark style sheet was applied.
\<close>

record Browser =
  settings :: dict
  blocked_domains :: "string set"
  dark_style :: bool
  page :: string
  url_bar :: string

definition SETTINGS_FILE :: string where
  "SETTINGS_FILE = ''settings.json''"

text \<open>
  \<^verbatim>\<open>AdBlocker.__init__\<close> (lines 16--20): the set of the stripped, non-empty lines of
  \<^verbatim>\<open>blocklist.txt\<close>; only \<^verbatim>\<open>FileNotFoundError\<close> is caught.
\<close>

definition AdBlocker_init :: "filesystem \<Rightarrow> error + string set" where
  "AdBlocker_init fs =
     (case read_text fs ''blocklist.txt'' of
        Inl FileNotFoundError \<Rightarrow> Inr {}
      | Inl e \<Rightarrow> Inl e
      | Inr text \<Rightarrow> Inr (set (map strip (filter (\<lambda>line. strip line \<noteq> []) (file_lines text)))))"

text \<open>
  \<^verbatim>\<open>AdBlocker.interceptRequest\<close> (lines 22--27). The argument \<open>url\<close> is
  \<^verbatim>\<open>info.requestUrl().toString()\<close>; the first component of the result says whether
  \<^verbatim>\<open>info.block(True)\<close> was called, the second is the state after the call.
\<close>

definition interceptRequest :: "Browser \<Rightarrow> string \<Rightarrow> bool \<times> Browser" where
  "interceptRequest st url =
     (if \<not> truthy (dict_get (settings st) ''ad_block_enabled'' (JBool True)) then (False, st)
      else if (\<exists>domain \<in> blocked_domains st. str_contains url domain) then (True, st)
      else (False, st))"

text \<open>\<^verbatim>\<open>Browser.load_settings\<close> (lines 125--133).\<close>

definition load_settings :: "filesystem \<Rightarrow> error + json" where
  "load_settings fs =
     (if contents fs SETTINGS_FILE \<noteq> None then
        (case read_text fs SETTINGS_FILE of
           Inl e \<Rightarrow> Inl e
         | Inr text \<Rightarrow> json_loads text)
      else Inr (JObj [(''ad_block_enabled'', JBool True),
                      (''dark_mode'', JBool False),
                      (''search_engine'', JStr ''DuckDuckGo'')]))"

text \<open>\<^verbatim>\<open>Browser.get_search_url\<close> (lines 154--166).\<close>

definition get_search_url :: "Browser \<Rightarrow> string \<Rightarrow> string" where
  "get_search_url st query =
     (let engine = dict_get (settings st) ''search_engine'' (JStr ''DuckDuckGo'');
          encoded = replace query '' '' ''+'' in
      if engine = JStr ''DuckDuckGo'' then ''https://duckduckgo.com/?q='' @ encoded
      else if engine = JStr ''Google'' then ''https://www.google.com/search?q='' @ encoded
      else if engine = JStr ''Startpage'' then ''https://www.startpage.com/do/search?query='' @ encoded
      else if engine = JStr ''Brave'' then ''https://search.brave.com/search?q='' @ encoded
      else ''https://duckduckgo.com/?q='' @ encoded)"

text \<open>\<^verbatim>\<open>Browser.navigate_home\<close> (lines 141--142) and \<^verbatim>\<open>Browser.navigate_to_url\<close> (lines 144--149).\<close>

definition navigate_home :: "Browser \<Rightarrow> Browser" where
  "navigate_home st = st\<lparr>page := get_search_url st []\<rparr>"

definition navigate_to_url :: "Browser \<Rightarrow> Browser" where
  "navigate_to_url st =
     (let q = url_bar st in
      if startswith q ''http'' then st\<lparr>page := q\<rparr>
      else st\<lparr>page := get_search_url st q\<rparr>)"

text \<open>\<^verbatim>\<open>Browser.update_url_bar\<close> (lines 151--152); \<open>q\<close> is \<^verbatim>\<open>q.toString()\<close>.\<close>

definition update_url_bar :: "Browser \<Rightarrow> string \<Rightarrow> Browser" where
  "update_url_bar st q = st\<lparr>url_bar := q\<rparr>"

text \<open>
  \<^verbatim>\<open>Browser.__init__\<close> (lines 67--123), as far as the state above goes. The first
  \<^verbatim>\<open>self.settings.get\<close> (line 77) raises \<^verbatim>\<open>AttributeError\<close> when the settings file
  held a JSON value that is not an object.
\<close>

definition Browser_init :: "filesystem \<Rightarrow> error + Browser" where
  "Browser_init fs =
     (case load_settings fs of
        Inl e \<Rightarrow> Inl e
      | Inr (JObj d) \<Rightarrow>
          (case AdBlocker_init fs of
             Inl e \<Rightarrow> Inl e
           | Inr domains \<Rightarrow>
               Inr (navigate_home
                 \<lparr>settings = d, blocked_domains = domains,
                  dark_style = truthy (dict_get d ''dark_mode'' (JBool False)),
                  page = [], url_bar = []\<rparr>))
      | Inr _ \<Rightarrow> Inl AttributeError)"

text \<open>
  The widgets of the settings dialog when \<^verbatim>\<open>Save\<close> is clicked, and
  \<^verbatim>\<open>SettingsDialog.save_settings_and_close\<close> (lines 57--63).
\<close>

record SettingsDialog =
  adblock_checkbox :: bool
  darkmode_checkbox :: bool
  search_engine_combo :: string

definition save_settings_and_close ::
    "SettingsDialog \<Rightarrow> Browser \<Rightarrow> filesystem \<Rightarrow> error + (Browser \<times> filesystem)" where
  "save_settings_and_close dlg st fs =
     (let d1 = dict_set (settings st) ''ad_block_enabled'' (JBool (adblock_checkbox dlg));
          d2 = dict_set d1 ''dark_mode'' (JBool (darkmode_checkbox dlg));
          d3 = dict_set d2 ''search_engine'' (JStr (search_engine_combo dlg)) in
      case write_text fs SETTINGS_FILE (json_dumps (JObj d3)) of
        Inl e \<Rightarrow> Inl e
      | Inr fs' \<Rightarrow> Inr (st\<lparr>settings := d3\<rparr>, fs'))"

text \<open>\<^verbatim>\<open>Browser.closeEvent\<close> (lines 168--171).\<close>

definition closeEvent :: "Browser \<Rightarrow> filesystem \<Rightarrow> error + (Browser \<times> filesystem)" where
  "closeEvent st fs =
     (case write_text fs SETTINGS_FILE (json_dumps (JObj (settings st))) of
        Inl e \<Rightarrow> Inl e
      | Inr fs' \<Rightarrow> Inr (st, fs'))"

section \<open>Properties\<close>

subsection \<open>Auxiliary facts about the string operations and dictionaries\<close>

lemma replace_char: "replace s [a] [b] = map (\<lambda>c. if c = a then b else c) s"
proof (induction s)
  case Nil
  show ?case by (subst replace.simps) simp
next
  case (Cons c s)
  have "replace (c # s) [a] [b] = (if c = a then b # replace s [a] [b] else c # replace s [a] [b])"
    by (subst replace.simps) simp
  then show ?case using Cons.IH by simp
qed

lemma get_search_url_engine:
  "get_search_url st q =
     (let engine = dict_get (settings st) ''search_engine'' (JStr ''DuckDuckGo'');
          encoded = map (\<lambda>c. if c = CHR '' '' then CHR ''+'' else c) q in
      if engine = JStr ''Google'' then ''https://www.google.com/search?q='' @ encoded
      else if engine = JStr ''Startpage'' then ''https://www.startpage.com/do/search?query='' @ encoded
      else if engine = JStr ''Brave'' then ''https://search.brave.com/search?q='' @ encoded
      else ''https://duckduckgo.com/?q='' @ encoded)"
  unfolding get_search_url_def Let_def replace_char by simp

lemma str_contains_sublist: "str_contains u d = sublist d u"
  by (induction u) (auto simp: sublist_Cons_right)

lemma startswith_prefix: "startswith s p = prefix p s"
  unfolding startswith_def prefix_def
  by (metis append_eq_conv_conj append_take_drop_id)

lemma map_of_dict_set: "map_of (dict_set d k v) = (map_of d)(k \<mapsto> v)"
  by (induction d k v rule: dict_set.induct) auto

lemma rev_split: "xs = rev (dropWhile P (rev xs)) @ rev (takeWhile P (rev xs))"
  by (metis rev_append rev_rev_ident takeWhile_dropWhile_id)

lemma strip_decompose:
  "\<exists>pre suf. s = pre @ strip s @ suf \<and> (\<forall>c \<in> set pre. isspace c) \<and> (\<forall>c \<in> set suf. isspace c)"
proof -
  define t where "t = dropWhile isspace s"
  have 1: "s = takeWhile isspace s @ t"
    by (simp add: t_def)
  have 2: "t = strip s @ rev (takeWhile isspace (rev t))"
    unfolding strip_def t_def [symmetric] by (rule rev_split)
  have 3: "\<forall>c \<in> set (takeWhile isspace s). isspace c"
    by (auto dest: set_takeWhileD)
  have 4: "\<forall>c \<in> set (rev (takeWhile isspace (rev t))). isspace c"
    by (auto dest: set_takeWhileD)
  from 1 2 have "s = takeWhile isspace s @ strip s @ rev (takeWhile isspace (rev t))"
    by simp
  with 3 4 show ?thesis by blast
qed

lemma strip_ends:
  assumes "strip s \<noteq> []"
  shows "\<not> isspace (hd (strip s))" and "\<not> isspace (last (strip s))"
proof -
  define t where "t = dropWhile isspace s"
  define u where "u = dropWhile isspace (rev t)"
  have su: "strip s = rev u" by (simp add: strip_def t_def u_def)
  with assms have u: "u \<noteq> []" by simp
  then have "\<not> isspace (hd u)" unfolding u_def by (rule hd_dropWhile)
  then show "\<not> isspace (last (strip s))" using su u by (simp add: last_rev)
  have t: "t \<noteq> []" using u by (auto simp: u_def)
  then have ht: "\<not> isspace (hd t)" unfolding t_def by (rule hd_dropWhile)
  have "t = rev u @ rev (takeWhile isspace (rev t))"
    unfolding u_def by (rule rev_split)
  then have "hd t = hd (rev u)" using u by (metis hd_append2 rev_is_Nil_conv)
  with ht su show "\<not> isspace (hd (strip s))" by simp
qed

lemma isspace_code:
  "isspace c = ((of_char c :: nat) \<in> {9, 10, 11, 12, 13, 28, 29, 30, 31, 32, 133, 160})"
  unfolding isspace_def Let_def by (simp only: insert_iff empty_iff) arith

lemma strip_unique:
  assumes l: "l = pre @ d @ suf"
    and pre: "\<forall>c \<in> set pre. isspace c" and suf: "\<forall>c \<in> set suf. isspace c"
    and d: "d \<noteq> []" "\<not> isspace (hd d)" "\<not> isspace (last d)"
  shows "strip l = d"
proof -
  have 1: "dropWhile isspace l = d @ suf"
    using l pre d by (cases d) (simp_all add: dropWhile_append)
  have "\<forall>c \<in> set (rev suf). isspace c" using suf by simp
  moreover have "rev d \<noteq> []" "\<not> isspace (hd (rev d))"
    using d by (simp_all add: hd_rev)
  ultimately have 2: "dropWhile isspace (rev suf @ rev d) = rev d"
    by (cases "rev d") (simp_all add: dropWhile_append)
  show ?thesis
    unfolding strip_def 1 using 2 by simp
qed

lemma stripped_line_iff:
  "(d \<noteq> [] \<and> \<not> isspace (hd d) \<and> \<not> isspace (last d)
      \<and> (\<exists>pre suf. line = pre @ d @ suf \<and> (\<forall>c \<in> set pre. isspace c) \<and> (\<forall>c \<in> set suf. isspace c)))
   = (d = strip line \<and> strip line \<noteq> [])"
proof
  assume L: "d \<noteq> [] \<and> \<not> isspace (hd d) \<and> \<not> isspace (last d)
      \<and> (\<exists>pre suf. line = pre @ d @ suf \<and> (\<forall>c \<in> set pre. isspace c) \<and> (\<forall>c \<in> set suf. isspace c))"
  then obtain pre suf where "line = pre @ d @ suf" "\<forall>c \<in> set pre. isspace c"
    "\<forall>c \<in> set suf. isspace c"
    by blast
  then have "strip line = d"
    using L by (intro strip_unique [of line pre d suf]) simp_all
  with L show "d = strip line \<and> strip line \<noteq> []" by simp
next
  assume R: "d = strip line \<and> strip line \<noteq> []"
  then have e: "\<not> isspace (hd d)" "\<not> isspace (last d)"
    using strip_ends [of line] by simp_all
  from strip_decompose [of line] R
  have "\<exists>pre suf. line = pre @ d @ suf \<and> (\<forall>c \<in> set pre. isspace c) \<and> (\<forall>c \<in> set suf. isspace c)"
    by simp
  with R e show "d \<noteq> [] \<and> \<not> isspace (hd d) \<and> \<not> isspace (last d)
      \<and> (\<exists>pre suf. line = pre @ d @ suf \<and> (\<forall>c \<in> set pre. isspace c) \<and> (\<forall>c \<in> set suf. isspace c))"
    by simp
qed

subsection \<open>The decoder reads back what the encoder wrote\<close>

text \<open>
  The text that follows an encoded value inside the encoder's output is empty or
  starts with a comma or a newline (\<open>value_end\<close>); an encoded value starts with a
  character that is neither whitespace nor a closing bracket (\<open>starts_value\<close>).
\<close>

lemma hexval_hexdigit: "k < 16 \<Longrightarrow> hexval (hexdigit k) = Some k"
proof -
  assume "k < 16"
  then have "k = 0 \<or> k = 1 \<or> k = 2 \<or> k = 3 \<or> k = 4 \<or> k = 5 \<or> k = 6 \<or> k = 7
      \<or> k = 8 \<or> k = 9 \<or> k = 10 \<or> k = 11 \<or> k = 12 \<or> k = 13 \<or> k = 14 \<or> k = 15"
    by arith
  then show ?thesis
    by (elim disjE) (simp_all add: hexval_def hexdigit_def)
qed

lemma hexval_zero: "hexval (CHR ''0'') = Some 0"
  by (simp add: hexval_def)

lemma decode_escape:
  "decode_uXXXX (CHR ''0'') (CHR ''0'') (hexdigit (of_char c div 16)) (hexdigit (of_char c mod 16))
     = Some (of_char c)"
proof -
  have "(of_char c :: nat) < 256" by simp
  then have "(of_char c :: nat) div 16 < 16" by arith
  then show ?thesis
    by (simp add: decode_uXXXX_def hexval_zero hexval_hexdigit)
qed

lemma scanstring_escape_char: "scanstring (escape_char c @ t) = push_char c (scanstring t)"
proof -
  consider (bs) "c = CHR 0x5C" | (dq) "c = CHR 0x22" | (b) "c = CHR 0x08" | (f) "c = CHR 0x0C"
    | (n) "c = CHR 0x0A" | (r) "c = CHR 0x0D" | (t) "c = CHR 0x09"
    | (u) "c \<notin> {CHR 0x5C, CHR 0x22, CHR 0x08, CHR 0x0C, CHR 0x0A, CHR 0x0D, CHR 0x09}"
          "(of_char c :: nat) < 32 \<or> 126 < (of_char c :: nat)"
    | (plain) "c \<notin> {CHR 0x5C, CHR 0x22, CHR 0x08, CHR 0x0C, CHR 0x0A, CHR 0x0D, CHR 0x09}"
          "\<not> ((of_char c :: nat) < 32 \<or> 126 < (of_char c :: nat))"
    by blast
  then show ?thesis
  proof cases
    case u
    then have e: "escape_char c = [CHR 0x5C, CHR ''u'', CHR ''0'', CHR ''0'',
              hexdigit (of_char c div 16), hexdigit (of_char c mod 16)]"
      by (simp add: escape_char_def)
    show ?thesis
      unfolding e by (simp add: decode_escape)
  next
    case plain
    then have e: "escape_char c = [c]"
      by (simp add: escape_char_def)
    show ?thesis
      unfolding e using plain by simp
  qed (simp_all add: escape_char_def backslash_def)
qed

lemma scanstring_escaped:
  "scanstring (concat (map escape_char s) @ CHR 0x22 # rest) = Inr (s, rest)"
  by (induction s) (simp_all add: scanstring_escape_char push_char_def)

lemma scan_once_string:
  "scan_once (encode_basestring_ascii s @ rest) = Inr (JStr s, rest)"
  by (subst scan_once.simps) (simp add: encode_basestring_ascii_def scanstring_escaped)

definition value_end :: "string \<Rightarrow> bool" where
  "value_end rest = (rest = [] \<or> hd rest = CHR '','' \<or> hd rest = CHR 0x0A)"

lemma dropWhile_replicate: "P x \<Longrightarrow> dropWhile P (replicate n x @ s) = dropWhile P s"
  by (induction n) simp_all

lemma skip_ws_newline_indent: "skip_ws (newline_indent k @ s) = skip_ws s"
  by (simp add: skip_ws_def newline_indent_def is_ws_def dropWhile_replicate)

lemma skip_ws_start: "\<not> is_ws c \<Longrightarrow> skip_ws (c # s) = c # s"
  by (simp add: skip_ws_def)

lemma digits_nonempty: "digits n \<noteq> []"
  by (subst digits.simps) simp

lemma is_digit_char_of: "k < 10 \<Longrightarrow> is_digit (char_of (48 + k :: nat))"
  by (simp add: is_digit_def)

lemma digits_all: "c \<in> set (digits n) \<Longrightarrow> is_digit c"
proof (induction n arbitrary: c rule: digits.induct)
  case (1 n)
  show ?case
  proof (cases "n < 10")
    case True
    with 1(2) show ?thesis
      by (subst (asm) digits.simps) (simp add: is_digit_char_of)
  next
    case False
    have "n mod 10 < 10" by simp
    with False 1 show ?thesis
      by (subst (asm) (2) digits.simps) (auto simp: is_digit_char_of)
  qed
qed

lemma nat_of_digits_snoc:
  "nat_of_digits (xs @ [c]) = 10 * nat_of_digits xs + (of_char c - 48)"
  by (simp add: nat_of_digits_def)

lemma of_char_digit: "k < 10 \<Longrightarrow> (of_char (char_of (48 + k) :: char) :: nat) = 48 + k"
  by simp

lemma nat_of_digits_digits: "nat_of_digits (digits n) = n"
proof (induction n rule: digits.induct)
  case (1 n)
  show ?case
  proof (cases "n < 10")
    case True
    then show ?thesis
      by (subst digits.simps) (simp add: nat_of_digits_def)
  next
    case False
    have m: "n mod 10 < 10" by simp
    from False 1 show ?thesis
      by (subst digits.simps) (simp add: nat_of_digits_snoc of_char_digit [OF m])
  qed
qed

lemma hd_digits: "0 < n \<Longrightarrow> hd (digits n) \<noteq> CHR ''0''"
proof (induction n rule: digits.induct)
  case (1 n)
  show ?case
  proof (cases "n < 10")
    case True
    with 1(2) have "n = 9 \<or> n = 8 \<or> n = 7 \<or> n = 6 \<or> n = 5 \<or> n = 4 \<or> n = 3 \<or> n = 2 \<or> n = 1"
      by arith
    then show ?thesis
      by (subst digits.simps) (auto simp: char_of_eq_iff)
  next
    case False
    then have "0 < n div 10" by simp
    with False 1 show ?thesis
      by (subst digits.simps) (simp add: digits_nonempty)
  qed
qed

lemma digits_zero: "digits 0 = ''0''"
  by (subst digits.simps) (simp add: char_of_eq_iff)

lemma value_end_not_digit: "value_end rest \<Longrightarrow> takeWhile is_digit rest = [] \<and> dropWhile is_digit rest = rest"
  by (cases rest) (auto simp: value_end_def is_digit_def)

lemma value_end_not_float: "value_end rest \<Longrightarrow> \<not> has_fraction rest \<and> \<not> has_exponent rest"
  by (cases rest) (auto simp: value_end_def has_fraction_def has_exponent_def split: list.splits)

lemma digits_span:
  assumes "value_end rest"
  shows "takeWhile is_digit (digits n @ rest) = digits n"
    and "dropWhile is_digit (digits n @ rest) = rest"
  using value_end_not_digit [OF assms] digits_all [of _ n]
  by (simp_all add: takeWhile_append2 dropWhile_append2)

lemma hd_digits_digit: "is_digit (hd (digits n))"
  using digits_nonempty [of n] digits_all [of "hd (digits n)" n] by simp

lemma number_result_int:
  "value_end rest \<Longrightarrow> number_result neg n rest = Inr (JInt (if neg then - int n else int n), rest)"
  using value_end_not_float [of rest] by (simp add: number_result_def)

lemma scan_number_digits:
  assumes "value_end rest"
  shows "scan_number (digits n @ rest) = Inr (JInt (int n), rest)"
proof (cases "n = 0")
  case True
  then show ?thesis
    using number_result_int [OF assms, of False 0]
    by (simp add: digits_zero scan_number_def)
next
  case False
  then have z: "hd (digits n) \<noteq> CHR ''0''" using hd_digits [of n] by simp
  have d: "is_digit (hd (digits n))" by (rule hd_digits_digit)
  then have m: "hd (digits n) \<noteq> CHR ''-''" by (auto simp: is_digit_def)
  show ?thesis
    using z d m digits_nonempty [of n] number_result_int [OF assms, of False n]
    by (simp add: scan_number_def Let_def digits_span [OF assms] nat_of_digits_digits)
qed

lemma scan_number_minus_digits:
  assumes "value_end rest" and "0 < n"
  shows "scan_number (CHR ''-'' # digits n @ rest) = Inr (JInt (- int n), rest)"
proof -
  have z: "hd (digits n) \<noteq> CHR ''0''" using hd_digits [OF assms(2)] .
  have d: "is_digit (hd (digits n))" by (rule hd_digits_digit)
  show ?thesis
    using z d digits_nonempty [of n] number_result_int [OF assms(1), of True n]
    by (simp add: scan_number_def Let_def digits_span [OF assms(1)] nat_of_digits_digits)
qed

lemma scan_number_int_repr:
  assumes "value_end rest"
  shows "scan_number (int_repr i @ rest) = Inr (JInt i, rest)"
proof (cases "i < 0")
  case True
  then have "0 < nat (- i)" by simp
  from scan_number_minus_digits [OF assms this] True show ?thesis
    by (simp add: int_repr_def)
next
  case False
  with scan_number_digits [OF assms, of "nat i"] show ?thesis
    by (simp add: int_repr_def)
qed

lemma scan_once_number:
  assumes "is_digit c \<or> c = CHR ''-''"
  shows "scan_once (c # s) = scan_number (c # s)"
proof -
  from assms have "c \<noteq> CHR 0x22" "c \<noteq> CHR ''{''" "c \<noteq> CHR ''[''"
    "c \<noteq> CHR ''n''" "c \<noteq> CHR ''t''" "c \<noteq> CHR ''f''"
    by (auto simp: is_digit_def)
  then show ?thesis
    by (subst scan_once.simps) simp
qed

lemma int_repr_start: "\<exists>c s. int_repr i = c # s \<and> (is_digit c \<or> c = CHR ''-'')"
proof (cases "i < 0")
  case True
  then show ?thesis by (simp add: int_repr_def)
next
  case False
  obtain c s where cs: "digits (nat i) = c # s"
    using digits_nonempty [of "nat i"] by (cases "digits (nat i)") auto
  with hd_digits_digit [of "nat i"] False show ?thesis
    by (simp add: int_repr_def)
qed

lemma scan_once_int:
  assumes "value_end rest"
  shows "scan_once (int_repr i @ rest) = Inr (JInt i, rest)"
proof -
  obtain c s where cs: "int_repr i = c # s" and c: "is_digit c \<or> c = CHR ''-''"
    using int_repr_start by blast
  have "scan_once (c # s @ rest) = scan_number (c # s @ rest)"
    using c by (rule scan_once_number)
  with scan_number_int_repr [OF assms, of i] cs show ?thesis by simp
qed

lemma scan_once_null: "scan_once (''null'' @ rest) = Inr (JNull, rest)"
  by (subst scan_once.simps) simp

lemma scan_once_true: "scan_once (''true'' @ rest) = Inr (JBool True, rest)"
  by (subst scan_once.simps) simp

lemma scan_once_false: "scan_once (''false'' @ rest) = Inr (JBool False, rest)"
  by (subst scan_once.simps) simp

definition starts_value :: "string \<Rightarrow> bool" where
  "starts_value s = (s \<noteq> [] \<and> \<not> is_ws (hd s) \<and> hd s \<noteq> CHR '']'')"

lemma starts_value_skip_ws: "starts_value s \<Longrightarrow> skip_ws s = s"
  by (cases s) (auto simp: starts_value_def skip_ws_def)

lemma starts_value_append: "starts_value s \<Longrightarrow> starts_value (s @ r)"
  by (cases s) (auto simp: starts_value_def)

lemma starts_value_encode: "starts_value (encode level v)"
proof (cases v)
  case (JInt i)
  obtain c s where "int_repr i = c # s" "is_digit c \<or> c = CHR ''-''"
    using int_repr_start by blast
  with JInt show ?thesis
    by (auto simp: starts_value_def is_ws_def is_digit_def)
qed (auto simp: starts_value_def is_ws_def encode_basestring_ascii_def)

lemma dict_set_fresh: "k \<notin> fst ` set d \<Longrightarrow> dict_set d k v = d @ [(k, v)]"
  by (induction d k v rule: dict_set.induct) auto

lemma foldl_dict_set:
  "distinct (map fst (d @ kvs)) \<Longrightarrow> foldl (\<lambda>d (k, v). dict_set d k v) d kvs = d @ kvs"
proof (induction kvs arbitrary: d)
  case Nil
  show ?case by simp
next
  case (Cons kv kvs)
  obtain k v where kv: "kv = (k, v)" by (cases kv)
  from Cons.prems kv have "k \<notin> fst ` set d" by auto
  then have s: "dict_set d k v = d @ [(k, v)]" by (rule dict_set_fresh)
  from Cons.prems kv have "distinct (map fst ((d @ [(k, v)]) @ kvs))" by simp
  from Cons.IH [OF this] s kv show ?case by simp
qed

lemma dict_of_pairs_distinct: "distinct (map fst kvs) \<Longrightarrow> dict_of_pairs kvs = kvs"
  using foldl_dict_set [of "[]" kvs] by (simp add: dict_of_pairs_def)

lemma scan_once_array:
  assumes "skip_ws w = X" and "starts_value X"
  shows "scan_once (CHR ''['' # w) =
    (case JSONArray X of Inl e \<Rightarrow> Inl e | Inr (vs, rest) \<Rightarrow> Inr (JList vs, rest))"
proof -
  from assms(2) obtain c1 r1 where X: "X = c1 # r1" and c1: "c1 \<noteq> CHR '']''"
    by (cases X) (auto simp: starts_value_def)
  show ?thesis
    by (subst scan_once.simps) (simp add: assms(1) X c1)
qed

lemma scan_once_object:
  assumes "skip_ws w = CHR 0x22 # X"
  shows "scan_once (CHR ''{'' # w) =
    (case JSONObject X of Inl e \<Rightarrow> Inl e | Inr (pairs, rest) \<Rightarrow> Inr (JObj (dict_of_pairs pairs), rest))"
  by (subst scan_once.simps) (simp add: assms)

lemma JSONArray_last:
  assumes "scan_once s = Inr (v, r)" and "skip_ws r = CHR '']'' # r1"
  shows "JSONArray s = Inr ([v], r1)"
  by (subst JSONArray.simps) (simp add: assms)

lemma JSONArray_more:
  assumes "scan_once s = Inr (v, r)" and "skip_ws r = CHR '','' # r1"
    and "JSONArray (skip_ws r1) = Inr (vs, rest)"
  shows "JSONArray s = Inr (v # vs, rest)"
  by (subst JSONArray.simps) (simp add: assms)

lemma JSONObject_last:
  assumes "scanstring s = Inr (key, r)" and "skip_ws r = CHR '':'' # r1"
    and "scan_once (skip_ws r1) = Inr (v, r2)" and "skip_ws r2 = CHR ''}'' # r3"
  shows "JSONObject s = Inr ([(key, v)], r3)"
  by (subst JSONObject.simps) (simp add: assms)

lemma JSONObject_more:
  assumes "scanstring s = Inr (key, r)" and "skip_ws r = CHR '':'' # r1"
    and "scan_once (skip_ws r1) = Inr (v, r2)" and "skip_ws r2 = CHR '','' # r3"
    and "skip_ws r3 = CHR 0x22 # r4" and "JSONObject r4 = Inr (pairs, rest)"
  shows "JSONObject s = Inr ((key, v) # pairs, rest)"
  by (subst JSONObject.simps) (simp add: assms)

lemma encode_list_start: "vs \<noteq> [] \<Longrightarrow> starts_value (encode_list level vs @ r)"
proof (cases vs)
  case Nil
  assume "vs \<noteq> []"
  with Nil show ?thesis by simp
next
  case (Cons v ws)
  then show ?thesis
    by (cases ws) (simp_all add: starts_value_append starts_value_encode)
qed

lemma encode_dict_start: "kvs \<noteq> [] \<Longrightarrow> encode_dict level kvs = CHR 0x22 # tl (encode_dict level kvs)"
proof (cases kvs)
  case Nil
  assume "kvs \<noteq> []"
  with Nil show ?thesis by simp
next
  case (Cons kv ws)
  obtain k v where "kv = (k, v)" by (cases kv)
  with Cons show ?thesis
    by (cases ws) (simp_all add: encode_basestring_ascii_def)
qed

lemma value_end_simps:
  "value_end []" "value_end (CHR '','' # s)" "value_end (newline_indent k @ s)"
  by (simp_all add: value_end_def newline_indent_def)

lemma skip_ws_punct:
  "skip_ws (CHR '','' # s) = CHR '','' # s"
  "skip_ws (CHR '':'' # s) = CHR '':'' # s"
  "skip_ws (CHR '']'' # s) = CHR '']'' # s"
  "skip_ws (CHR ''}'' # s) = CHR ''}'' # s"
  "skip_ws (CHR 0x22 # s) = CHR 0x22 # s"
  "skip_ws (CHR '' '' # s) = skip_ws s"
  by (simp_all add: skip_ws_def is_ws_def)

lemma round_trip:
  shows "wf_json v \<Longrightarrow> value_end rest \<Longrightarrow> scan_once (encode level v @ rest) = Inr (v, rest)"
    and "vs \<noteq> [] \<Longrightarrow> list_all wf_json vs \<Longrightarrow>
      JSONArray (encode_list level vs @ newline_indent k @ CHR '']'' # rest) = Inr (vs, rest)"
    and "kvs \<noteq> [] \<Longrightarrow> list_all (\<lambda>kv. wf_json (snd kv)) kvs \<Longrightarrow>
      JSONObject (tl (encode_dict level kvs) @ newline_indent k @ CHR ''}'' # rest) = Inr (kvs, rest)"
proof (induction level v and level vs and level kvs arbitrary: rest and k rest and k rest
    rule: encode_encode_list_encode_dict.induct)
  case (1 level)
  show ?case using scan_once_null [of rest] by simp
next
  case (2 level b)
  show ?case using scan_once_true [of rest] scan_once_false [of rest] by simp
next
  case (3 level i)
  from "3.prems"(2) show ?case using scan_once_int [of rest i] by simp
next
  case (4 level s)
  show ?case using scan_once_string [of s rest] by simp
next
  case (5 level vs)
  show ?case
  proof (cases "vs = []")
    case True
    have "scan_once (CHR ''['' # CHR '']'' # rest) = Inr (JList [], rest)"
      by (subst scan_once.simps) (simp add: skip_ws_punct)
    with True show ?thesis by simp
  next
    case False
    let ?X = "encode_list (Suc level) vs @ newline_indent level @ CHR '']'' # rest"
    have sv: "starts_value ?X" using False by (rule encode_list_start)
    have sk: "skip_ws (newline_indent (Suc level) @ ?X) = ?X"
      by (simp only: skip_ws_newline_indent starts_value_skip_ws [OF sv])
    from "5.prems" have "list_all wf_json vs" by simp
    from "5.IH" [OF False False this] have "JSONArray ?X = Inr (vs, rest)" .
    with scan_once_array [OF sk sv] False show ?thesis by simp
  qed
next
  case (6 level kvs)
  show ?case
  proof (cases "kvs = []")
    case True
    have "scan_once (CHR ''{'' # CHR ''}'' # rest) = Inr (JObj [], rest)"
      by (subst scan_once.simps) (simp add: skip_ws_punct)
    with True show ?thesis by simp
  next
    case False
    let ?T = "tl (encode_dict (Suc level) kvs) @ newline_indent level @ CHR ''}'' # rest"
    have e: "encode_dict (Suc level) kvs = CHR 0x22 # tl (encode_dict (Suc level) kvs)"
      using False by (rule encode_dict_start)
    have "skip_ws (newline_indent (Suc level) @ CHR 0x22 # ?T) = CHR 0x22 # ?T"
      by (simp only: skip_ws_newline_indent skip_ws_punct)
    then have sk: "skip_ws (newline_indent (Suc level) @ encode_dict (Suc level) kvs
        @ newline_indent level @ CHR ''}'' # rest) = CHR 0x22 # ?T"
      by (subst e) simp
    from "6.prems" have w: "list_all (\<lambda>kv. wf_json (snd kv)) kvs" and d: "distinct (map fst kvs)"
      by simp_all
    from "6.IH" [OF False False w] have "JSONObject ?T = Inr (kvs, rest)" .
    with scan_once_object [OF sk] False dict_of_pairs_distinct [OF d] show ?thesis by simp
  qed
next
  case (7 level)
  then show ?case by simp
next
  case (8 level v)
  from "8.prems" have w: "wf_json v" by simp
  have "scan_once (encode level v @ newline_indent k @ CHR '']'' # rest)
      = Inr (v, newline_indent k @ CHR '']'' # rest)"
    using w by (rule "8.IH") (rule value_end_simps)
  moreover have "skip_ws (newline_indent k @ CHR '']'' # rest) = CHR '']'' # rest"
    by (simp only: skip_ws_newline_indent skip_ws_punct)
  ultimately have "JSONArray (encode level v @ newline_indent k @ CHR '']'' # rest) = Inr ([v], rest)"
    by (rule JSONArray_last)
  then show ?case by simp
next
  case (9 level v w vs)
  from "9.prems" have wv: "wf_json v" and ws: "list_all wf_json (w # vs)" by simp_all
  let ?Y = "encode_list level (w # vs) @ newline_indent k @ CHR '']'' # rest"
  have 1: "scan_once (encode level v @ CHR '','' # newline_indent level @ ?Y)
      = Inr (v, CHR '','' # newline_indent level @ ?Y)"
    using wv by (rule "9.IH"(1)) (rule value_end_simps)
  have 2: "skip_ws (CHR '','' # newline_indent level @ ?Y) = CHR '','' # newline_indent level @ ?Y"
    by (rule skip_ws_punct)
  have sv: "starts_value ?Y" by (rule encode_list_start) simp
  have 3: "skip_ws (newline_indent level @ ?Y) = ?Y"
    by (simp only: skip_ws_newline_indent starts_value_skip_ws [OF sv])
  have "JSONArray ?Y = Inr (w # vs, rest)"
    by (rule "9.IH"(2)) (simp, rule ws)
  with 3 have 4: "JSONArray (skip_ws (newline_indent level @ ?Y)) = Inr (w # vs, rest)" by simp
  from JSONArray_more [OF 1 2 4] show ?case by simp
next
  case (10 level)
  then show ?case by simp
next
  case (11 level key v)
  from "11.prems" have wv: "wf_json v" by simp
  let ?R = "newline_indent k @ CHR ''}'' # rest"
  have 1: "scanstring (concat (map escape_char key) @ CHR 0x22 # CHR '':'' # CHR '' '' # encode level v @ ?R)
      = Inr (key, CHR '':'' # CHR '' '' # encode level v @ ?R)"
    by (rule scanstring_escaped)
  have 2: "skip_ws (CHR '':'' # CHR '' '' # encode level v @ ?R) = CHR '':'' # CHR '' '' # encode level v @ ?R"
    by (rule skip_ws_punct)
  have sv: "starts_value (encode level v @ ?R)"
    by (rule starts_value_append) (rule starts_value_encode)
  have sk: "skip_ws (CHR '' '' # encode level v @ ?R) = encode level v @ ?R"
    by (simp only: skip_ws_punct starts_value_skip_ws [OF sv])
  have "scan_once (encode level v @ ?R) = Inr (v, ?R)"
    using wv by (rule "11.IH") (rule value_end_simps)
  with sk have 3: "scan_once (skip_ws (CHR '' '' # encode level v @ ?R)) = Inr (v, ?R)" by simp
  have 4: "skip_ws ?R = CHR ''}'' # rest"
    by (simp only: skip_ws_newline_indent skip_ws_punct)
  from JSONObject_last [OF 1 2 3 4] show ?case
    by (simp add: encode_basestring_ascii_def)
next
  case (12 level key v kv kvs)
  from "12.prems" have wv: "wf_json v" and ws: "list_all (\<lambda>kv. wf_json (snd kv)) (kv # kvs)"
    by simp_all
  let ?T = "tl (encode_dict level (kv # kvs)) @ newline_indent k @ CHR ''}'' # rest"
  let ?Y = "encode_dict level (kv # kvs) @ newline_indent k @ CHR ''}'' # rest"
  let ?R = "CHR '','' # newline_indent level @ ?Y"
  have e: "encode_dict level (kv # kvs) = CHR 0x22 # tl (encode_dict level (kv # kvs))"
    by (rule encode_dict_start) simp
  have 1: "scanstring (concat (map escape_char key) @ CHR 0x22 # CHR '':'' # CHR '' '' # encode level v @ ?R)
      = Inr (key, CHR '':'' # CHR '' '' # encode level v @ ?R)"
    by (rule scanstring_escaped)
  have 2: "skip_ws (CHR '':'' # CHR '' '' # encode level v @ ?R) = CHR '':'' # CHR '' '' # encode level v @ ?R"
    by (rule skip_ws_punct)
  have sv: "starts_value (encode level v @ ?R)"
    by (rule starts_value_append) (rule starts_value_encode)
  have sk: "skip_ws (CHR '' '' # encode level v @ ?R) = encode level v @ ?R"
    by (simp only: skip_ws_punct starts_value_skip_ws [OF sv])
  have "scan_once (encode level v @ ?R) = Inr (v, ?R)"
    using wv by (rule "12.IH"(1)) (rule value_end_simps)
  with sk have 3: "scan_once (skip_ws (CHR '' '' # encode level v @ ?R)) = Inr (v, ?R)" by simp
  have 4: "skip_ws ?R = ?R" by (rule skip_ws_punct)
  have "skip_ws (newline_indent level @ CHR 0x22 # ?T) = CHR 0x22 # ?T"
    by (simp only: skip_ws_newline_indent skip_ws_punct)
  then have 5: "skip_ws (newline_indent level @ ?Y) = CHR 0x22 # ?T"
    by (subst e) simp
  have 6: "JSONObject ?T = Inr (kv # kvs, rest)"
    by (rule "12.IH"(2)) (simp, rule ws)
  from JSONObject_more [OF 1 2 3 4 5 6] show ?case
    by (simp add: encode_basestring_ascii_def)
qed

lemma translate_newlines_id: "CHR 0x0D \<notin> set s \<Longrightarrow> translate_newlines s = s"
  by (induction s rule: translate_newlines.induct) auto

lemma hexdigit_no_cr: "k < 16 \<Longrightarrow> hexdigit k \<noteq> CHR 0x0D"
proof -
  assume "k < 16"
  then have "k = 0 \<or> k = 1 \<or> k = 2 \<or> k = 3 \<or> k = 4 \<or> k = 5 \<or> k = 6 \<or> k = 7
      \<or> k = 8 \<or> k = 9 \<or> k = 10 \<or> k = 11 \<or> k = 12 \<or> k = 13 \<or> k = 14 \<or> k = 15"
    by arith
  then show ?thesis
    by (elim disjE) (simp_all add: hexdigit_def)
qed

lemma escape_char_no_cr: "CHR 0x0D \<notin> set (escape_char c)"
proof -
  have "(of_char c :: nat) < 256" by simp
  then have "(of_char c :: nat) div 16 < 16" by arith
  moreover have "(of_char c :: nat) mod 16 < 16" by simp
  ultimately show ?thesis
    using hexdigit_no_cr [of "of_char c div 16"] hexdigit_no_cr [of "of_char c mod 16"]
    by (auto simp: escape_char_def)
qed

lemma basestring_no_cr: "CHR 0x0D \<notin> set (encode_basestring_ascii s)"
  by (induction s) (simp_all add: encode_basestring_ascii_def escape_char_no_cr)

lemma int_repr_no_cr: "CHR 0x0D \<notin> set (int_repr i)"
  using digits_all [of "CHR 0x0D"] by (auto simp: int_repr_def is_digit_def)

lemma newline_indent_no_cr: "CHR 0x0D \<notin> set (newline_indent k)"
  by (simp add: newline_indent_def)

lemma encode_no_cr:
  shows "CHR 0x0D \<notin> set (encode level v)"
    and "CHR 0x0D \<notin> set (encode_list level vs)"
    and "CHR 0x0D \<notin> set (encode_dict level kvs)"
  by (induction level v and level vs and level kvs rule: encode_encode_list_encode_dict.induct)
    (simp_all add: basestring_no_cr int_repr_no_cr newline_indent_no_cr)

lemma json_loads_dumps: "wf_json v \<Longrightarrow> json_loads (json_dumps v) = Inr v"
proof -
  assume w: "wf_json v"
  have "skip_ws (encode 0 v) = encode 0 v"
    by (rule starts_value_skip_ws) (rule starts_value_encode)
  moreover have "scan_once (encode 0 v @ []) = Inr (v, [])"
    using w by (rule round_trip(1)) (rule value_end_simps)
  ultimately show ?thesis
    by (simp add: json_loads_def json_dumps_def skip_ws_def)
qed

lemma read_back:
  assumes "wf_json v" and "contents fs SETTINGS_FILE = Some (json_dumps v)"
  shows "load_settings fs = Inr v"
  using assms json_loads_dumps [OF assms(1)] encode_no_cr(1) [of 0 v]
  by (simp add: load_settings_def read_text_def translate_newlines_id json_dumps_def)

lemma dict_set_keys: "fst ` set (dict_set d k v) = insert k (fst ` set d)"
  by (induction d k v rule: dict_set.induct) auto

lemma distinct_dict_set: "distinct (map fst d) \<Longrightarrow> distinct (map fst (dict_set d k v))"
  by (induction d k v rule: dict_set.induct) (auto simp: dict_set_keys)

lemma list_all_dict_set:
  "list_all P d \<Longrightarrow> P (k, v) \<Longrightarrow> list_all P (dict_set d k v)"
  by (induction d k v rule: dict_set.induct) auto

lemma wf_dict_set: "wf_json (JObj d) \<Longrightarrow> wf_json v \<Longrightarrow> wf_json (JObj (dict_set d k v))"
  by (simp add: distinct_dict_set list_all_dict_set)

lemma newline_indent_0: "newline_indent 0 = [CHR 0x0A]"
  by (simp add: newline_indent_def)

lemma newline_indent_1: "newline_indent (Suc 0) = CHR 0x0A # ''    ''"
  by (simp add: newline_indent_def eval_nat_numeral)

lemma wf_saved:
  "wf_json (JObj d) \<Longrightarrow>
   wf_json (JObj (dict_set (dict_set (dict_set d ''ad_block_enabled'' (JBool a))
      ''dark_mode'' (JBool b)) ''search_engine'' (JStr e)))"
  by (intro wf_dict_set) simp_all

subsection \<open>The request filter\<close>

text \<open>
  C1. For every URL string, when the ad-block toggle is enabled (the key
  \<^verbatim>\<open>ad_block_enabled\<close> holds \<^verbatim>\<open>True\<close>, or is absent and defaults to it) the request
  is blocked if and only if the URL contains at least one member of the blocklist set as
  a substring; when the toggle is disabled the request is allowed whatever the blocklist
  holds.
\<close>

theorem request_filter_decision:
  "((map_of (settings st) ''ad_block_enabled'' = Some (JBool True)
       \<or> map_of (settings st) ''ad_block_enabled'' = None) \<longrightarrow>
      fst (interceptRequest st url) = (\<exists>d \<in> blocked_domains st. \<exists>p s. url = p @ d @ s))
   \<and> (map_of (settings st) ''ad_block_enabled'' = Some (JBool False) \<longrightarrow>
      \<not> fst (interceptRequest st url))"
  by (auto simp: interceptRequest_def dict_get_def str_contains_sublist sublist_def)

theorem request_filter_decision_witness:
  "fst (interceptRequest \<lparr>settings = [(''ad_block_enabled'', JBool True)], blocked_domains = {''ads.''}, dark_style = False, page = [], url_bar = []\<rparr> ''http://ads.example/x'')
   \<and> \<not> fst (interceptRequest \<lparr>settings = [(''ad_block_enabled'', JBool False)], blocked_domains = {''ads.''}, dark_style = False, page = [], url_bar = []\<rparr> ''http://ads.example/x'')"
proof -
  let ?on = "\<lparr>settings = [(''ad_block_enabled'', JBool True)], blocked_domains = {''ads.''}, dark_style = False, page = [], url_bar = []\<rparr>"
  let ?off = "\<lparr>settings = [(''ad_block_enabled'', JBool False)], blocked_domains = {''ads.''}, dark_style = False, page = [], url_bar = []\<rparr>"
  have "\<exists>p s. ''http://ads.example/x'' = p @ ''ads.'' @ s"
    by (rule exI [of _ "''http://''"], rule exI [of _ "''example/x''"]) simp
  then have "\<exists>d \<in> blocked_domains ?on. \<exists>p s. ''http://ads.example/x'' = p @ d @ s"
    by simp
  then have "fst (interceptRequest ?on ''http://ads.example/x'')"
    using request_filter_decision [of ?on "''http://ads.example/x''"] by simp
  moreover have "\<not> fst (interceptRequest ?off ''http://ads.example/x'')"
    using request_filter_decision [of ?off "''http://ads.example/x''"] by simp
  ultimately show ?thesis by simp
qed

text \<open>
  C5. When the blocklist file does not exist, constructing the ad blocker yields the
  empty blocklist set, and a browser started on such a file system blocks no request,
  for every settings record and every URL.
\<close>

theorem missing_blocklist_fail_open:
  "contents fs ''blocklist.txt'' = None \<Longrightarrow>
   AdBlocker_init fs = Inr {}
   \<and> (\<forall>st. Browser_init fs = Inr st \<longrightarrow>
         blocked_domains st = {}
         \<and> (\<forall>d url. \<not> fst (interceptRequest (st\<lparr>settings := d\<rparr>) url)))"
  by (auto simp: AdBlocker_init_def read_text_def Browser_init_def navigate_home_def
        interceptRequest_def split: sum.splits json.splits)

theorem missing_blocklist_fail_open_witness:
  "AdBlocker_init \<lparr>contents = Map.empty, unwritable = {}\<rparr> = Inr {}
   \<and> (\<exists>st. Browser_init \<lparr>contents = Map.empty, unwritable = {}\<rparr> = Inr st
         \<and> \<not> fst (interceptRequest st ''http://ads.example/x''))"
proof -
  let ?fs = "\<lparr>contents = Map.empty, unwritable = {}\<rparr>"
  have n: "contents ?fs ''blocklist.txt'' = None" by simp
  obtain st where st: "Browser_init ?fs = Inr st"
    by (simp add: Browser_init_def load_settings_def AdBlocker_init_def read_text_def)
  from missing_blocklist_fail_open [OF n] st
  have "\<not> fst (interceptRequest (st\<lparr>settings := settings st\<rparr>) ''http://ads.example/x'')"
    by blast
  with missing_blocklist_fail_open [OF n] st show ?thesis by simp
qed

text \<open>
  C7. The request filter only reads: a call returns the state it was given, so the
  blocklist set and the settings record are unchanged by it, on any URL and any
  settings. No other operation of the browser changes the blocklist set either, which
  is computed once, by the constructor.
\<close>

theorem intercept_request_frame:
  "snd (interceptRequest st url) = st
   \<and> blocked_domains (navigate_home st) = blocked_domains st
   \<and> blocked_domains (navigate_to_url st) = blocked_domains st
   \<and> blocked_domains (update_url_bar st q) = blocked_domains st
   \<and> (case save_settings_and_close dlg st fs of
         Inl e \<Rightarrow> True | Inr (st', fs') \<Rightarrow> blocked_domains st' = blocked_domains st)
   \<and> (case closeEvent st fs of
         Inl e \<Rightarrow> True | Inr (st', fs') \<Rightarrow> blocked_domains st' = blocked_domains st)"
  by (simp add: interceptRequest_def navigate_home_def navigate_to_url_def update_url_bar_def
        save_settings_and_close_def closeEvent_def Let_def split: sum.splits)

theorem intercept_request_frame_witness:
  "snd (interceptRequest \<lparr>settings = [(''ad_block_enabled'', JBool True)], blocked_domains = {''ads.''}, dark_style = False, page = [], url_bar = []\<rparr> ''http://ads.example/x'')
     = \<lparr>settings = [(''ad_block_enabled'', JBool True)], blocked_domains = {''ads.''}, dark_style = False, page = [], url_bar = []\<rparr>"
  using intercept_request_frame
    [of "\<lparr>settings = [(''ad_block_enabled'', JBool True)], blocked_domains = {''ads.''}, dark_style = False, page = [], url_bar = []\<rparr>" "''http://ads.example/x''"]
  by simp

text \<open>
  C8. Every line of the blocklist file is stripped of leading and trailing whitespace
  and the lines that are empty after stripping are dropped. Stated without the model's
  own stripping function: the blocklist set is exactly the set of the non-empty strings
  \<open>d\<close> that neither start nor end with a whitespace character and for which some line
  of the file is \<open>d\<close> between two runs of whitespace characters. The whitespace
  characters are those of the code points 9 to 13, 28 to 32, 133 and 160. In particular
  the empty string, a substring of every URL, is never a member.
\<close>

theorem blocklist_entries_stripped:
  "contents fs ''blocklist.txt'' = Some text \<Longrightarrow>
   (let ws = (\<lambda>c. (of_char c :: nat) \<in> {9, 10, 11, 12, 13, 28, 29, 30, 31, 32, 133, 160}) in
    AdBlocker_init fs =
      Inr {d. d \<noteq> [] \<and> \<not> ws (hd d) \<and> \<not> ws (last d)
             \<and> (\<exists>line \<in> set (file_lines (translate_newlines text)).
                  \<exists>pre suf. line = pre @ d @ suf
                    \<and> (\<forall>c \<in> set pre. ws c) \<and> (\<forall>c \<in> set suf. ws c))})"
proof -
  assume c: "contents fs ''blocklist.txt'' = Some text"
  let ?L = "set (file_lines (translate_newlines text))"
  have "AdBlocker_init fs = Inr {strip line | line. line \<in> ?L \<and> strip line \<noteq> []}"
    using c by (auto simp: AdBlocker_init_def read_text_def)
  also have "{strip line | line. line \<in> ?L \<and> strip line \<noteq> []} =
    {d. \<exists>line \<in> ?L. d = strip line \<and> strip line \<noteq> []}"
    by auto
  also have "\<dots> = {d. \<exists>line \<in> ?L. d \<noteq> [] \<and> \<not> isspace (hd d) \<and> \<not> isspace (last d)
      \<and> (\<exists>pre suf. line = pre @ d @ suf \<and> (\<forall>c \<in> set pre. isspace c) \<and> (\<forall>c \<in> set suf. isspace c))}"
    by (simp only: stripped_line_iff)
  also have "\<dots> = {d. d \<noteq> [] \<and> \<not> isspace (hd d) \<and> \<not> isspace (last d)
      \<and> (\<exists>line \<in> ?L. \<exists>pre suf. line = pre @ d @ suf
            \<and> (\<forall>c \<in> set pre. isspace c) \<and> (\<forall>c \<in> set suf. isspace c))}"
    by (rule Collect_cong) (simp only: bex_simps)
  finally have F: "AdBlocker_init fs = Inr {d. d \<noteq> [] \<and> \<not> isspace (hd d) \<and> \<not> isspace (last d)
      \<and> (\<exists>line \<in> ?L. \<exists>pre suf. line = pre @ d @ suf
            \<and> (\<forall>c \<in> set pre. isspace c) \<and> (\<forall>c \<in> set suf. isspace c))}" .
  show ?thesis
    unfolding Let_def using F unfolding isspace_code .
qed

theorem blocklist_entries_stripped_witness:
  "AdBlocker_init \<lparr>contents = [''blocklist.txt'' \<mapsto> '' ads. '' @ [CHR 0x0A, CHR 0x0A, CHR 0x09] @ '' '' @ [CHR 0x0D, CHR 0x0A] @ ''track.example''], unwritable = {}\<rparr>
     = Inr {''ads.'', ''track.example''}
   \<and> {d. d \<noteq> [] \<and> (of_char (hd d) :: nat) \<notin> {9, 10, 11, 12, 13, 28, 29, 30, 31, 32, 133, 160}
          \<and> (of_char (last d) :: nat) \<notin> {9, 10, 11, 12, 13, 28, 29, 30, 31, 32, 133, 160}
          \<and> (\<exists>line \<in> set (file_lines (translate_newlines ('' ads. '' @ [CHR 0x0A, CHR 0x0A, CHR 0x09] @ '' '' @ [CHR 0x0D, CHR 0x0A] @ ''track.example''))).
               \<exists>pre suf. line = pre @ d @ suf
                 \<and> (\<forall>c \<in> set pre. (of_char c :: nat) \<in> {9, 10, 11, 12, 13, 28, 29, 30, 31, 32, 133, 160})
                 \<and> (\<forall>c \<in> set suf. (of_char c :: nat) \<in> {9, 10, 11, 12, 13, 28, 29, 30, 31, 32, 133, 160}))}
       = {''ads.'', ''track.example''}"
proof -
  let ?fs = "\<lparr>contents = [''blocklist.txt'' \<mapsto> '' ads. '' @ [CHR 0x0A, CHR 0x0A, CHR 0x09] @ '' '' @ [CHR 0x0D, CHR 0x0A] @ ''track.example''], unwritable = {}\<rparr>"
  have c: "AdBlocker_init ?fs = Inr {''ads.'', ''track.example''}"
    by (simp add: AdBlocker_init_def read_text_def file_lines_def strip_def isspace_def)
  have h: "contents ?fs ''blocklist.txt'' = Some ('' ads. '' @ [CHR 0x0A, CHR 0x0A, CHR 0x09] @ '' '' @ [CHR 0x0D, CHR 0x0A] @ ''track.example'')"
    by simp
  note t = blocklist_entries_stripped [OF h, unfolded Let_def]
  have "Inr {''ads.'', ''track.example''} = AdBlocker_init ?fs" using c by (rule sym)
  also note t
  finally show ?thesis using c by (simp only: sum.inject simp_thms)
qed

subsection \<open>Settings\<close>

text \<open>
  C2. Loading the settings when the settings file does not exist returns exactly the
  default record: ad blocking enabled, dark mode disabled, search engine DuckDuckGo.
\<close>

theorem missing_settings_defaults:
  "contents fs SETTINGS_FILE = None \<Longrightarrow>
   load_settings fs =
     Inr (JObj [(''ad_block_enabled'', JBool True), (''dark_mode'', JBool False),
                (''search_engine'', JStr ''DuckDuckGo'')])"
  by (simp add: load_settings_def)

theorem missing_settings_defaults_witness:
  "load_settings \<lparr>contents = Map.empty, unwritable = {}\<rparr> =
     Inr (JObj [(''ad_block_enabled'', JBool True), (''dark_mode'', JBool False),
                (''search_engine'', JStr ''DuckDuckGo'')])"
  using missing_settings_defaults [of "\<lparr>contents = Map.empty, unwritable = {}\<rparr>"]
  by simp

text \<open>
  C6. The settings record in memory is written to the settings file both by the save
  action of the settings dialog and by the handler of the window's close event. When
  the file can be opened for writing, the file afterwards holds the text that the JSON
  encoder gives for the record that is then in memory, and the JSON decoder reads that
  text back as the very same record; for the save action the record carries the values
  of the three widgets. The record is any dictionary that \<open>wf_json\<close> admits.
\<close>

theorem settings_persisted:
  "SETTINGS_FILE \<notin> unwritable fs \<Longrightarrow> wf_json (JObj (settings st)) \<Longrightarrow>
   (\<exists>st' fs' text. save_settings_and_close dlg st fs = Inr (st', fs')
       \<and> contents fs' SETTINGS_FILE = Some text
       \<and> text = json_dumps (JObj (settings st'))
       \<and> json_loads text = Inr (JObj (settings st'))
       \<and> map_of (settings st') ''ad_block_enabled'' = Some (JBool (adblock_checkbox dlg))
       \<and> map_of (settings st') ''dark_mode'' = Some (JBool (darkmode_checkbox dlg))
       \<and> map_of (settings st') ''search_engine'' = Some (JStr (search_engine_combo dlg)))
   \<and> (\<exists>fs' text. closeEvent st fs = Inr (st, fs')
       \<and> contents fs' SETTINGS_FILE = Some text
       \<and> text = json_dumps (JObj (settings st))
       \<and> json_loads text = Inr (JObj (settings st)))"
proof -
  assume w: "SETTINGS_FILE \<notin> unwritable fs" and wf: "wf_json (JObj (settings st))"
  let ?d = "dict_set (dict_set (dict_set (settings st) ''ad_block_enabled'' (JBool (adblock_checkbox dlg)))
      ''dark_mode'' (JBool (darkmode_checkbox dlg))) ''search_engine'' (JStr (search_engine_combo dlg))"
  have "wf_json (JObj ?d)" using wf by (rule wf_saved)
  then have 1: "json_loads (json_dumps (JObj ?d)) = Inr (JObj ?d)" by (rule json_loads_dumps)
  have 2: "json_loads (json_dumps (JObj (settings st))) = Inr (JObj (settings st))"
    using wf by (rule json_loads_dumps)
  show ?thesis
    using w 1 2
    by (simp add: save_settings_and_close_def closeEvent_def write_text_def Let_def map_of_dict_set)
qed

theorem settings_persisted_witness:
  "(\<exists>st' fs'.
      save_settings_and_close \<lparr>adblock_checkbox = False, darkmode_checkbox = True, search_engine_combo = ''Brave''\<rparr> \<lparr>settings = [], blocked_domains = {}, dark_style = False, page = [], url_bar = []\<rparr> \<lparr>contents = Map.empty, unwritable = {}\<rparr> = Inr (st', fs')
      \<and> settings st' = [(''ad_block_enabled'', JBool False), (''dark_mode'', JBool True), (''search_engine'', JStr ''Brave'')]
      \<and> contents fs' SETTINGS_FILE = Some (''{'' @ [CHR 0x0A] @ ''    '' @ [CHR 0x22] @ ''ad_block_enabled'' @ [CHR 0x22] @ '': false,'' @ [CHR 0x0A] @ ''    '' @ [CHR 0x22] @ ''dark_mode'' @ [CHR 0x22] @ '': true,'' @ [CHR 0x0A] @ ''    '' @ [CHR 0x22] @ ''search_engine'' @ [CHR 0x22] @ '': '' @ [CHR 0x22] @ ''Brave'' @ [CHR 0x22, CHR 0x0A] @ ''}'')
      \<and> json_loads (''{'' @ [CHR 0x0A] @ ''    '' @ [CHR 0x22] @ ''ad_block_enabled'' @ [CHR 0x22] @ '': false,'' @ [CHR 0x0A] @ ''    '' @ [CHR 0x22] @ ''dark_mode'' @ [CHR 0x22] @ '': true,'' @ [CHR 0x0A] @ ''    '' @ [CHR 0x22] @ ''search_engine'' @ [CHR 0x22] @ '': '' @ [CHR 0x22] @ ''Brave'' @ [CHR 0x22, CHR 0x0A] @ ''}'') = Inr (JObj [(''ad_block_enabled'', JBool False), (''dark_mode'', JBool True), (''search_engine'', JStr ''Brave'')]))
   \<and> (\<exists>fs'. closeEvent \<lparr>settings = [(''search_engine'', JStr (''Start'' @ [CHR 0x22] @ ''page'')), (''ad_block_enabled'', JBool True)], blocked_domains = {}, dark_style = False, page = [], url_bar = []\<rparr> \<lparr>contents = Map.empty, unwritable = {}\<rparr> = Inr (\<lparr>settings = [(''search_engine'', JStr (''Start'' @ [CHR 0x22] @ ''page'')), (''ad_block_enabled'', JBool True)], blocked_domains = {}, dark_style = False, page = [], url_bar = []\<rparr>, fs')
      \<and> contents fs' SETTINGS_FILE = Some (''{'' @ [CHR 0x0A] @ ''    '' @ [CHR 0x22] @ ''search_engine'' @ [CHR 0x22] @ '': '' @ [CHR 0x22] @ ''Start'' @ [CHR 0x5C, CHR 0x22] @ ''page'' @ [CHR 0x22] @ '','' @ [CHR 0x0A] @ ''    '' @ [CHR 0x22] @ ''ad_block_enabled'' @ [CHR 0x22] @ '': true'' @ [CHR 0x0A] @ ''}'')
      \<and> json_loads (''{'' @ [CHR 0x0A] @ ''    '' @ [CHR 0x22] @ ''search_engine'' @ [CHR 0x22] @ '': '' @ [CHR 0x22] @ ''Start'' @ [CHR 0x5C, CHR 0x22] @ ''page'' @ [CHR 0x22] @ '','' @ [CHR 0x0A] @ ''    '' @ [CHR 0x22] @ ''ad_block_enabled'' @ [CHR 0x22] @ '': true'' @ [CHR 0x0A] @ ''}'') = Inr (JObj [(''search_engine'', JStr (''Start'' @ [CHR 0x22] @ ''page'')), (''ad_block_enabled'', JBool True)]))"
proof -
  have d1: "json_dumps (JObj [(''ad_block_enabled'', JBool False), (''dark_mode'', JBool True), (''search_engine'', JStr ''Brave'')]) = ''{'' @ [CHR 0x0A] @ ''    '' @ [CHR 0x22] @ ''ad_block_enabled'' @ [CHR 0x22] @ '': false,'' @ [CHR 0x0A] @ ''    '' @ [CHR 0x22] @ ''dark_mode'' @ [CHR 0x22] @ '': true,'' @ [CHR 0x0A] @ ''    '' @ [CHR 0x22] @ ''search_engine'' @ [CHR 0x22] @ '': '' @ [CHR 0x22] @ ''Brave'' @ [CHR 0x22, CHR 0x0A] @ ''}''"
    by (simp add: json_dumps_def encode_basestring_ascii_def escape_char_def newline_indent_0 newline_indent_1)
  have d2: "json_dumps (JObj [(''search_engine'', JStr (''Start'' @ [CHR 0x22] @ ''page'')), (''ad_block_enabled'', JBool True)]) = ''{'' @ [CHR 0x0A] @ ''    '' @ [CHR 0x22] @ ''search_engine'' @ [CHR 0x22] @ '': '' @ [CHR 0x22] @ ''Start'' @ [CHR 0x5C, CHR 0x22] @ ''page'' @ [CHR 0x22] @ '','' @ [CHR 0x0A] @ ''    '' @ [CHR 0x22] @ ''ad_block_enabled'' @ [CHR 0x22] @ '': true'' @ [CHR 0x0A] @ ''}''"
    by (simp add: json_dumps_def encode_basestring_ascii_def escape_char_def newline_indent_0 newline_indent_1)
  have s: "settings (\<lparr>settings = [], blocked_domains = {}, dark_style = False, page = [], url_bar = []\<rparr>\<lparr>settings := [(''ad_block_enabled'', JBool False), (''dark_mode'', JBool True), (''search_engine'', JStr ''Brave'')]\<rparr>) = [(''ad_block_enabled'', JBool False), (''dark_mode'', JBool True), (''search_engine'', JStr ''Brave'')]" by simp
  have w: "SETTINGS_FILE \<notin> unwritable \<lparr>contents = Map.empty, unwritable = {}\<rparr>" by simp
  have wf0: "wf_json (JObj (settings \<lparr>settings = [], blocked_domains = {}, dark_style = False, page = [], url_bar = []\<rparr>))" by simp
  have wf1: "wf_json (JObj (settings \<lparr>settings = [(''search_engine'', JStr (''Start'' @ [CHR 0x22] @ ''page'')), (''ad_block_enabled'', JBool True)], blocked_domains = {}, dark_style = False, page = [], url_bar = []\<rparr>))" by simp
  from settings_persisted [OF w wf0, of "\<lparr>adblock_checkbox = False, darkmode_checkbox = True, search_engine_combo = ''Brave''\<rparr>"]
  have a: "\<exists>st' fs'.
      save_settings_and_close \<lparr>adblock_checkbox = False, darkmode_checkbox = True, search_engine_combo = ''Brave''\<rparr> \<lparr>settings = [], blocked_domains = {}, dark_style = False, page = [], url_bar = []\<rparr> \<lparr>contents = Map.empty, unwritable = {}\<rparr> = Inr (st', fs')
      \<and> settings st' = [(''ad_block_enabled'', JBool False), (''dark_mode'', JBool True), (''search_engine'', JStr ''Brave'')]
      \<and> contents fs' SETTINGS_FILE = Some (json_dumps (JObj [(''ad_block_enabled'', JBool False), (''dark_mode'', JBool True), (''search_engine'', JStr ''Brave'')]))
      \<and> json_loads (json_dumps (JObj [(''ad_block_enabled'', JBool False), (''dark_mode'', JBool True), (''search_engine'', JStr ''Brave'')])) = Inr (JObj [(''ad_block_enabled'', JBool False), (''dark_mode'', JBool True), (''search_engine'', JStr ''Brave'')])"
    by (auto simp: save_settings_and_close_def write_text_def Let_def)
  from settings_persisted [OF w wf1, of "\<lparr>adblock_checkbox = False, darkmode_checkbox = True, search_engine_combo = ''Brave''\<rparr>"]
  have b: "\<exists>fs'. closeEvent \<lparr>settings = [(''search_engine'', JStr (''Start'' @ [CHR 0x22] @ ''page'')), (''ad_block_enabled'', JBool True)], blocked_domains = {}, dark_style = False, page = [], url_bar = []\<rparr> \<lparr>contents = Map.empty, unwritable = {}\<rparr> = Inr (\<lparr>settings = [(''search_engine'', JStr (''Start'' @ [CHR 0x22] @ ''page'')), (''ad_block_enabled'', JBool True)], blocked_domains = {}, dark_style = False, page = [], url_bar = []\<rparr>, fs')
      \<and> contents fs' SETTINGS_FILE = Some (json_dumps (JObj [(''search_engine'', JStr (''Start'' @ [CHR 0x22] @ ''page'')), (''ad_block_enabled'', JBool True)]))
      \<and> json_loads (json_dumps (JObj [(''search_engine'', JStr (''Start'' @ [CHR 0x22] @ ''page'')), (''ad_block_enabled'', JBool True)])) = Inr (JObj [(''search_engine'', JStr (''Start'' @ [CHR 0x22] @ ''page'')), (''ad_block_enabled'', JBool True)])"
    by (auto simp: closeEvent_def write_text_def)
  from a b show ?thesis unfolding d1 d2 by (rule conjI)
qed

text \<open>
  C3. Saving a settings record and then loading the settings yields the record that
  was saved. This holds for every record of the two booleans and the search engine
  string, and more generally for every dictionary of JSON values that \<open>wf_json\<close>
  admits, for the save action of the dialog as well as for the close handler, provided
  the file can be written.
\<close>

theorem settings_round_trip:
  "SETTINGS_FILE \<notin> unwritable fs \<Longrightarrow>
   (\<forall>a d e. settings st = [(''ad_block_enabled'', JBool a), (''dark_mode'', JBool d),
                            (''search_engine'', JStr e)] \<or> wf_json (JObj (settings st)) \<longrightarrow>
      (\<exists>st' fs'. save_settings_and_close dlg st fs = Inr (st', fs')
          \<and> load_settings fs' = Inr (JObj (settings st')))
      \<and> (\<exists>fs'. closeEvent st fs = Inr (st, fs')
          \<and> load_settings fs' = Inr (JObj (settings st))))"
proof (intro allI impI)
  fix a d e
  assume w: "SETTINGS_FILE \<notin> unwritable fs"
  assume "settings st = [(''ad_block_enabled'', JBool a), (''dark_mode'', JBool d),
                            (''search_engine'', JStr e)] \<or> wf_json (JObj (settings st))"
  then have wf: "wf_json (JObj (settings st))" by auto
  let ?d = "dict_set (dict_set (dict_set (settings st) ''ad_block_enabled'' (JBool (adblock_checkbox dlg)))
      ''dark_mode'' (JBool (darkmode_checkbox dlg))) ''search_engine'' (JStr (search_engine_combo dlg))"
  let ?fs1 = "fs\<lparr>contents := (contents fs)(SETTINGS_FILE \<mapsto> json_dumps (JObj ?d))\<rparr>"
  let ?fs2 = "fs\<lparr>contents := (contents fs)(SETTINGS_FILE \<mapsto> json_dumps (JObj (settings st)))\<rparr>"
  have "wf_json (JObj ?d)" using wf by (rule wf_saved)
  then have 1: "load_settings ?fs1 = Inr (JObj ?d)" by (rule read_back) simp
  have 2: "load_settings ?fs2 = Inr (JObj (settings st))" using wf by (rule read_back) simp
  show "(\<exists>st' fs'. save_settings_and_close dlg st fs = Inr (st', fs')
          \<and> load_settings fs' = Inr (JObj (settings st')))
      \<and> (\<exists>fs'. closeEvent st fs = Inr (st, fs')
          \<and> load_settings fs' = Inr (JObj (settings st)))"
    using w 1 2
    by (simp add: save_settings_and_close_def closeEvent_def write_text_def Let_def)
qed

theorem settings_round_trip_witness:
  "(\<exists>st' fs'. save_settings_and_close \<lparr>adblock_checkbox = False, darkmode_checkbox = True, search_engine_combo = ''Brave''\<rparr> \<lparr>settings = [], blocked_domains = {}, dark_style = False, page = [], url_bar = []\<rparr> \<lparr>contents = Map.empty, unwritable = {}\<rparr> = Inr (st', fs')
      \<and> settings st' = [(''ad_block_enabled'', JBool False), (''dark_mode'', JBool True), (''search_engine'', JStr ''Brave'')] \<and> load_settings fs' = Inr (JObj [(''ad_block_enabled'', JBool False), (''dark_mode'', JBool True), (''search_engine'', JStr ''Brave'')]))
   \<and> (\<exists>fs'. closeEvent \<lparr>settings = [(''ad_block_enabled'', JBool False), (''dark_mode'', JBool True), (''search_engine'', JStr ''Brave'')], blocked_domains = {}, dark_style = False, page = [], url_bar = []\<rparr> \<lparr>contents = Map.empty, unwritable = {}\<rparr> = Inr (\<lparr>settings = [(''ad_block_enabled'', JBool False), (''dark_mode'', JBool True), (''search_engine'', JStr ''Brave'')], blocked_domains = {}, dark_style = False, page = [], url_bar = []\<rparr>, fs') \<and> load_settings fs' = Inr (JObj [(''ad_block_enabled'', JBool False), (''dark_mode'', JBool True), (''search_engine'', JStr ''Brave'')]))"
proof -
  have w: "SETTINGS_FILE \<notin> unwritable \<lparr>contents = Map.empty, unwritable = {}\<rparr>" by simp
  have wf0: "settings \<lparr>settings = [], blocked_domains = {}, dark_style = False, page = [], url_bar = []\<rparr> = [(''ad_block_enabled'', JBool True), (''dark_mode'', JBool True),
      (''search_engine'', JStr [])] \<or> wf_json (JObj (settings \<lparr>settings = [], blocked_domains = {}, dark_style = False, page = [], url_bar = []\<rparr>))" by simp
  have r2: "settings \<lparr>settings = [(''ad_block_enabled'', JBool False), (''dark_mode'', JBool True), (''search_engine'', JStr ''Brave'')], blocked_domains = {}, dark_style = False, page = [], url_bar = []\<rparr> = [(''ad_block_enabled'', JBool False), (''dark_mode'', JBool True), (''search_engine'', JStr ''Brave'')] \<or> wf_json (JObj (settings \<lparr>settings = [(''ad_block_enabled'', JBool False), (''dark_mode'', JBool True), (''search_engine'', JStr ''Brave'')], blocked_domains = {}, dark_style = False, page = [], url_bar = []\<rparr>))" by simp
  from settings_round_trip [OF w, of "\<lparr>settings = [], blocked_domains = {}, dark_style = False, page = [], url_bar = []\<rparr>" "\<lparr>adblock_checkbox = False, darkmode_checkbox = True, search_engine_combo = ''Brave''\<rparr>"] wf0
  have a: "\<exists>st' fs'. save_settings_and_close \<lparr>adblock_checkbox = False, darkmode_checkbox = True, search_engine_combo = ''Brave''\<rparr> \<lparr>settings = [], blocked_domains = {}, dark_style = False, page = [], url_bar = []\<rparr> \<lparr>contents = Map.empty, unwritable = {}\<rparr> = Inr (st', fs')
      \<and> settings st' = [(''ad_block_enabled'', JBool False), (''dark_mode'', JBool True), (''search_engine'', JStr ''Brave'')] \<and> load_settings fs' = Inr (JObj [(''ad_block_enabled'', JBool False), (''dark_mode'', JBool True), (''search_engine'', JStr ''Brave'')])"
    by (auto simp: save_settings_and_close_def write_text_def Let_def)
  from settings_round_trip [OF w, of "\<lparr>settings = [(''ad_block_enabled'', JBool False), (''dark_mode'', JBool True), (''search_engine'', JStr ''Brave'')], blocked_domains = {}, dark_style = False, page = [], url_bar = []\<rparr>" "\<lparr>adblock_checkbox = False, darkmode_checkbox = True, search_engine_combo = ''Brave''\<rparr>"] r2
  have b: "\<exists>fs'. closeEvent \<lparr>settings = [(''ad_block_enabled'', JBool False), (''dark_mode'', JBool True), (''search_engine'', JStr ''Brave'')], blocked_domains = {}, dark_style = False, page = [], url_bar = []\<rparr> \<lparr>contents = Map.empty, unwritable = {}\<rparr> = Inr (\<lparr>settings = [(''ad_block_enabled'', JBool False), (''dark_mode'', JBool True), (''search_engine'', JStr ''Brave'')], blocked_domains = {}, dark_style = False, page = [], url_bar = []\<rparr>, fs') \<and> load_settings fs' = Inr (JObj [(''ad_block_enabled'', JBool False), (''dark_mode'', JBool True), (''search_engine'', JStr ''Brave'')])"
    by (auto simp: closeEvent_def write_text_def)
  from a b show ?thesis by (rule conjI)
qed

subsection \<open>Navigation\<close>

text \<open>
  C4. For every query string, each of the four search engines DuckDuckGo, Google,
  Startpage and Brave yields its URL template followed by the query in which every
  space character is replaced by a plus sign.
\<close>

theorem search_url_templates:
  "(map_of (settings st) ''search_engine'' = Some (JStr ''DuckDuckGo'') \<longrightarrow>
      get_search_url st q =
        ''https://duckduckgo.com/?q='' @ map (\<lambda>c. if c = CHR '' '' then CHR ''+'' else c) q)
   \<and> (map_of (settings st) ''search_engine'' = Some (JStr ''Google'') \<longrightarrow>
      get_search_url st q =
        ''https://www.google.com/search?q='' @ map (\<lambda>c. if c = CHR '' '' then CHR ''+'' else c) q)
   \<and> (map_of (settings st) ''search_engine'' = Some (JStr ''Startpage'') \<longrightarrow>
      get_search_url st q =
        ''https://www.startpage.com/do/search?query='' @ map (\<lambda>c. if c = CHR '' '' then CHR ''+'' else c) q)
   \<and> (map_of (settings st) ''search_engine'' = Some (JStr ''Brave'') \<longrightarrow>
      get_search_url st q =
        ''https://search.brave.com/search?q='' @ map (\<lambda>c. if c = CHR '' '' then CHR ''+'' else c) q)"
  by (simp add: get_search_url_engine dict_get_def)

theorem search_url_templates_witness:
  "get_search_url \<lparr>settings = [(''search_engine'', JStr ''DuckDuckGo'')], blocked_domains = {}, dark_style = False, page = [], url_bar = []\<rparr> ''a b'' = ''https://duckduckgo.com/?q=a+b''
   \<and> get_search_url \<lparr>settings = [(''search_engine'', JStr ''Google'')], blocked_domains = {}, dark_style = False, page = [], url_bar = []\<rparr> ''a b'' = ''https://www.google.com/search?q=a+b''
   \<and> get_search_url \<lparr>settings = [(''search_engine'', JStr ''Startpage'')], blocked_domains = {}, dark_style = False, page = [], url_bar = []\<rparr> ''a b'' = ''https://www.startpage.com/do/search?query=a+b''
   \<and> get_search_url \<lparr>settings = [(''search_engine'', JStr ''Brave'')], blocked_domains = {}, dark_style = False, page = [], url_bar = []\<rparr> ''a b'' = ''https://search.brave.com/search?q=a+b''"
  using search_url_templates [of "\<lparr>settings = [(''search_engine'', JStr ''DuckDuckGo'')], blocked_domains = {}, dark_style = False, page = [], url_bar = []\<rparr>" "''a b''"]
    search_url_templates [of "\<lparr>settings = [(''search_engine'', JStr ''Google'')], blocked_domains = {}, dark_style = False, page = [], url_bar = []\<rparr>" "''a b''"]
    search_url_templates [of "\<lparr>settings = [(''search_engine'', JStr ''Startpage'')], blocked_domains = {}, dark_style = False, page = [], url_bar = []\<rparr>" "''a b''"]
    search_url_templates [of "\<lparr>settings = [(''search_engine'', JStr ''Brave'')], blocked_domains = {}, dark_style = False, page = [], url_bar = []\<rparr>" "''a b''"]
  by simp

text \<open>
  C10. Building the search URL never fails: when the key \<^verbatim>\<open>search_engine\<close> is absent
  from the settings, or holds any value other than the names Google, Startpage and
  Brave (in particular any string that is none of the four documented names), the
  result is the DuckDuckGo template followed by the encoded query.
\<close>

theorem search_url_fallback:
  "(map_of (settings st) ''search_engine'' = None \<or>
    (\<exists>v. map_of (settings st) ''search_engine'' = Some v \<and>
         v \<notin> {JStr ''Google'', JStr ''Startpage'', JStr ''Brave''})) \<Longrightarrow>
   get_search_url st q =
     ''https://duckduckgo.com/?q='' @ map (\<lambda>c. if c = CHR '' '' then CHR ''+'' else c) q"
  by (auto simp: get_search_url_engine dict_get_def)

theorem search_url_fallback_witness:
  "get_search_url \<lparr>settings = [], blocked_domains = {}, dark_style = False, page = [], url_bar = []\<rparr> ''a b'' = ''https://duckduckgo.com/?q=a+b''
   \<and> get_search_url \<lparr>settings = [(''search_engine'', JStr ''Bing'')], blocked_domains = {}, dark_style = False, page = [], url_bar = []\<rparr> ''a b'' = ''https://duckduckgo.com/?q=a+b''"
  using search_url_fallback [of "\<lparr>settings = [], blocked_domains = {}, dark_style = False, page = [], url_bar = []\<rparr>" "''a b''"]
    search_url_fallback [of "\<lparr>settings = [(''search_engine'', JStr ''Bing'')], blocked_domains = {}, dark_style = False, page = [], url_bar = []\<rparr>" "''a b''"]
  by simp

text \<open>
  C9. For every string in the address bar, navigating loads the string itself when it
  starts with \<^verbatim>\<open>http\<close>, and otherwise the search URL that the current search engine
  gives for that string; nothing else of the state changes.
\<close>

theorem navigate_to_url_target:
  "navigate_to_url st =
     st\<lparr>page := (if prefix ''http'' (url_bar st) then url_bar st
                 else get_search_url st (url_bar st))\<rparr>"
  by (simp add: navigate_to_url_def Let_def startswith_prefix)

theorem navigate_to_url_target_witness:
  "page (navigate_to_url \<lparr>settings = [], blocked_domains = {}, dark_style = False, page = [], url_bar = ''https://example.org/a b''\<rparr>) = ''https://example.org/a b''
   \<and> page (navigate_to_url \<lparr>settings = [], blocked_domains = {}, dark_style = False, page = [], url_bar = ''a b''\<rparr>) = ''https://duckduckgo.com/?q=a+b''"
  by (simp add: navigate_to_url_target get_search_url_engine dict_get_def)

end
